theory Spec2Isabelle
  imports Complex_Main "HOL-Library.Char_ord" "HOL-Library.List_Lexorder"
    "HOL-Library.Product_Lexorder"
begin

section \<open>Python values used by \<open>cluster_students_kmeans.py\<close>\<close>

text \<open>
  The exceptions that can escape the module's functions: \<open>IndexError\<close> from list
  indexing and from \<open>random.choice\<close> on an empty sequence, \<open>ValueError\<close>
  from \<open>random.sample\<close>, from \<open>float(...)\<close>, from \<open>main\<close> on an empty
  input and from \<open>csv.DictWriter\<close>, \<open>OverflowError\<close> from \<open>x ** 2\<close>
  and from the true division of two integers, \<open>KeyError\<close> from a missing column.
\<close>

datatype py_error = IndexError | ValueError | OverflowError | KeyError

text \<open>
  Python's float arithmetic belongs to the interpreter and the C library, not to the
  module, and is a parameter of the model: a type \<open>'f\<close> of float values with the
  operations the module applies to them. \<open>f_sq\<close> is \<open>x ** 2\<close>, which raises
  \<open>OverflowError\<close> (here \<open>None\<close>) when the square of a finite number is too
  large; \<open>f_div_count\<close> is \<open>x / n\<close> for a float \<open>x\<close> and a positive list
  length \<open>n\<close>; \<open>f_zero\<close> is \<open>0.0\<close> and \<open>f_nan\<close> is
  \<open>float("nan")\<close>; \<open>f_lt\<close> is \<open><\<close> and \<open>f_isnan\<close> is
  \<open>math.isnan\<close>. Addition, subtraction, division by a count and comparison of
  floats never raise.
\<close>

record 'f float_ops =
  f_zero :: 'f
  f_nan :: 'f
  f_add :: "'f \<Rightarrow> 'f \<Rightarrow> 'f"
  f_sub :: "'f \<Rightarrow> 'f \<Rightarrow> 'f"
  f_sq :: "'f \<Rightarrow> 'f option"
  f_div_count :: "'f \<Rightarrow> nat \<Rightarrow> 'f"
  f_lt :: "'f \<Rightarrow> 'f \<Rightarrow> bool"
  f_isnan :: "'f \<Rightarrow> bool"

text \<open>\<open>xs[i]\<close> for an index that is never negative here.\<close>

definition py_get :: "'a list \<Rightarrow> nat \<Rightarrow> py_error + 'a" where
  "py_get xs i = (if i < length xs then Inr (xs ! i) else Inl IndexError)"

section \<open>The random source\<close>

text \<open>
  The module draws from Python's process-wide generator through \<open>random.choice\<close>
  and \<open>random.sample\<close>. The state of the generator is made explicit as a value of an
  arbitrary type \<open>'r\<close>, and the generator is a parameter with two operations.
  \<open>draw n s\<close> gives a raw number and the next state when a number below \<open>n\<close> is
  asked for in state \<open>s\<close>; \<open>randbelow\<close> reduces the raw number into range.
  \<open>pick n k s\<close> gives, for a sample of \<open>k\<close> out of \<open>n\<close> positions, the raw
  position of each of the \<open>k\<close> selections and the next state;
  \<open>random_sample\<close> reduces each into range. Every way of drawing in-range numbers
  and of selecting \<open>k\<close> in-range positions is an instance, whichever algorithm the
  library uses; that the library selects distinct positions is not used.
\<close>

record 'r random_src =
  draw :: "nat \<Rightarrow> 'r \<Rightarrow> nat \<times> 'r"
  pick :: "nat \<Rightarrow> nat \<Rightarrow> 'r \<Rightarrow> (nat \<Rightarrow> nat) \<times> 'r"

definition randbelow :: "'r random_src \<Rightarrow> nat \<Rightarrow> 'r \<Rightarrow> nat \<times> 'r" where
  "randbelow rs n s = (case draw rs n s of (v, s') \<Rightarrow> (v mod n, s'))"

text \<open>\<open>random.choice(seq)\<close>: \<open>IndexError\<close> on an empty sequence.\<close>

definition random_choice :: "'r random_src \<Rightarrow> 'a list \<Rightarrow> 'r \<Rightarrow> py_error + ('a \<times> 'r)" where
  "random_choice rs xs s =
     (if xs = [] then Inl IndexError
      else (case randbelow rs (length xs) s of (j, s') \<Rightarrow> Inr (xs ! j, s')))"

text \<open>
  \<open>random.sample(population, k)\<close>: \<open>ValueError\<close> when \<open>k\<close> exceeds the
  population (\<open>k\<close> is never negative here), otherwise the elements at the \<open>k\<close>
  selected positions.
\<close>

definition random_sample :: "'r random_src \<Rightarrow> 'a list \<Rightarrow> nat \<Rightarrow> 'r \<Rightarrow> py_error + ('a list \<times> 'r)" where
  "random_sample rs population k s =
     (if k > length population then Inl ValueError
      else (case pick rs (length population) k s of
              (sel, s') \<Rightarrow>
                Inr (map (\<lambda>i. population ! (sel i mod length population)) [0..<k], s')))"

section \<open>The true division of two integers\<close>

text \<open>
  \<open>n / m\<close> for two Python integers is the quotient correctly rounded to a binary64
  number, and raises \<open>OverflowError\<close> when that number is too large for a float.
  \<open>rnd64\<close> rounds a real number to the nearest number with a 53-bit significand and
  an exponent of at least \<open>-1074\<close> for its last bit, ties to the even significand;
  the largest float is below \<open>2 ^ 1024\<close>.
\<close>

definition round_even :: "real \<Rightarrow> int" where
  "round_even r =
     (let f = \<lfloor>r\<rfloor>
      in if r - of_int f < 1 / 2 then f
         else if 1 / 2 < r - of_int f then f + 1
         else if even f then f else f + 1)"

definition ulp_exp :: "real \<Rightarrow> int" where
  "ulp_exp x = max \<lfloor>log 2 \<bar>x\<bar>\<rfloor> (- 1022) - 52"

definition rnd64 :: "real \<Rightarrow> real" where
  "rnd64 x =
     (if x = 0 then 0
      else of_int (round_even (x / 2 powr of_int (ulp_exp x))) * 2 powr of_int (ulp_exp x))"

definition true_div :: "int \<Rightarrow> int \<Rightarrow> real option" where
  "true_div n m =
     (let q = rnd64 (real_of_int n / real_of_int m)
      in if 2 ^ 1024 \<le> \<bar>q\<bar> then None else Some q)"

section \<open>The clustering engine\<close>

type_synonym 'f point = "'f \<times> 'f"

text \<open>
  \<open>euclidean2\<close>: the two squares are computed from left to right, and either may
  raise.
\<close>

definition euclidean2 :: "'f float_ops \<Rightarrow> 'f point \<Rightarrow> 'f point \<Rightarrow> py_error + 'f" where
  "euclidean2 ops a b =
     (case f_sq ops (f_sub ops (fst a) (fst b)) of
        None \<Rightarrow> Inl OverflowError
      | Some u \<Rightarrow>
          (case f_sq ops (f_sub ops (snd a) (snd b)) of
             None \<Rightarrow> Inl OverflowError
           | Some v \<Rightarrow> Inr (f_add ops u v)))"

text \<open>
  \<open>choose_k\<close>: \<open>n / max(1, target_capacity)\<close> is the true division of two
  integers and \<open>math.ceil\<close> the ceiling of the float it gives.
\<close>

definition choose_k :: "int \<Rightarrow> int \<Rightarrow> py_error + int" where
  "choose_k n target_capacity =
     (if n \<le> 0 then Inr 0
      else (case true_div n (max 1 target_capacity) of
              None \<Rightarrow> Inl OverflowError
            | Some q \<Rightarrow> Inr (max 1 (min \<lceil>q\<rceil> n))))"

text \<open>
  The number of clusters \<open>k\<close> is a count (\<open>choose_k\<close> never returns a negative
  number) and is a natural number from here on.
\<close>

definition init_centroids :: "'r random_src \<Rightarrow> 'f point list \<Rightarrow> nat \<Rightarrow> 'r \<Rightarrow> py_error + ('f point list \<times> 'r)" where
  "init_centroids rs points k s =
     (if k \<ge> length points then Inr (points, s)
      else random_sample rs points k s)"

text \<open>
  The accumulation loop of \<open>recompute_centroids\<close> over
  \<open>zip(points, assignments)\<close>; \<open>sum_xy\<close> is the list \<open>sums\<close>.
\<close>

fun accumulate :: "'f float_ops \<Rightarrow> ('f point \<times> nat) list \<Rightarrow> 'f point list \<Rightarrow> nat list \<Rightarrow> py_error + ('f point list \<times> nat list)" where
  "accumulate ops [] sum_xy counts = Inr (sum_xy, counts)"
| "accumulate ops ((p, c) # rest) sum_xy counts =
     (case py_get sum_xy c of
        Inl e \<Rightarrow> Inl e
      | Inr sc \<Rightarrow>
          (case py_get counts c of
             Inl e \<Rightarrow> Inl e
           | Inr n \<Rightarrow>
               accumulate ops rest
                 (sum_xy[c := (f_add ops (fst sc) (fst p), f_add ops (snd sc) (snd p))])
                 (counts[c := n + 1])))"

text \<open>
  The second loop of \<open>recompute_centroids\<close> runs over \<open>range(k)\<close> and reads
  \<open>sums[i]\<close> and \<open>counts[i]\<close>; both lists have length \<open>k\<close>, so it is the
  traversal of the two lists side by side.
\<close>

definition centroid_of :: "'f float_ops \<Rightarrow> 'f point \<times> nat \<Rightarrow> 'f point" where
  "centroid_of ops sn =
     (if snd sn = 0 then (f_nan ops, f_nan ops)
      else (f_div_count ops (fst (fst sn)) (snd sn), f_div_count ops (snd (fst sn)) (snd sn)))"

definition recompute_centroids :: "'f float_ops \<Rightarrow> 'f point list \<Rightarrow> nat list \<Rightarrow> nat \<Rightarrow> py_error + 'f point list" where
  "recompute_centroids ops points assignments k =
     (case accumulate ops (zip points assignments)
             (replicate k (f_zero ops, f_zero ops)) (replicate k 0) of
        Inl e \<Rightarrow> Inl e
      | Inr (sum_xy, counts) \<Rightarrow> Inr (map (centroid_of ops) (zip sum_xy counts)))"

text \<open>
  The inner loop of the assign step: \<open>for c in range(1, k)\<close> with the running
  \<open>best_c\<close> and \<open>best_d\<close>.
\<close>

fun nearest_scan :: "'f float_ops \<Rightarrow> 'f point \<Rightarrow> 'f point list \<Rightarrow> nat list \<Rightarrow> nat \<Rightarrow> 'f \<Rightarrow> py_error + nat" where
  "nearest_scan ops p centroids [] best_c best_d = Inr best_c"
| "nearest_scan ops p centroids (c # cs) best_c best_d =
     (case py_get centroids c of
        Inl e \<Rightarrow> Inl e
      | Inr cc \<Rightarrow>
          (case euclidean2 ops p cc of
             Inl e \<Rightarrow> Inl e
           | Inr d \<Rightarrow>
               if f_lt ops d best_d then nearest_scan ops p centroids cs c d
               else nearest_scan ops p centroids cs best_c best_d))"

definition nearest :: "'f float_ops \<Rightarrow> 'f point \<Rightarrow> 'f point list \<Rightarrow> nat \<Rightarrow> py_error + nat" where
  "nearest ops p centroids k =
     (case py_get centroids 0 of
        Inl e \<Rightarrow> Inl e
      | Inr c0 \<Rightarrow>
          (case euclidean2 ops p c0 of
             Inl e \<Rightarrow> Inl e
           | Inr d0 \<Rightarrow> nearest_scan ops p centroids [1..<k] 0 d0))"

text \<open>
  The assign step: \<open>for i, p in enumerate(points)\<close>, with the index \<open>i\<close> of the
  next point, the points still to visit, the assignment list and the flag
  \<open>changed\<close>.
\<close>

fun assign_loop :: "'f float_ops \<Rightarrow> 'f point list \<Rightarrow> nat \<Rightarrow> nat \<Rightarrow> 'f point list \<Rightarrow> nat list \<Rightarrow> bool \<Rightarrow> py_error + (nat list \<times> bool)" where
  "assign_loop ops centroids k i [] assignments changed = Inr (assignments, changed)"
| "assign_loop ops centroids k i (p # ps) assignments changed =
     (case nearest ops p centroids k of
        Inl e \<Rightarrow> Inl e
      | Inr best_c \<Rightarrow>
          (case py_get assignments i of
             Inl e \<Rightarrow> Inl e
           | Inr cur \<Rightarrow>
               if cur \<noteq> best_c
               then assign_loop ops centroids k (Suc i) ps (assignments[i := best_c]) True
               else assign_loop ops centroids k (Suc i) ps assignments changed))"

text \<open>
  The re-seeding loop \<open>for c in range(k)\<close> over the recomputed centroids, a list of
  length \<open>k\<close>: a centroid with a not-a-number coordinate is replaced by
  \<open>random.choice(points)\<close> and sets \<open>changed\<close>.
\<close>

fun reseed :: "'f float_ops \<Rightarrow> 'r random_src \<Rightarrow> 'f point list \<Rightarrow> 'f point list \<Rightarrow> 'r \<Rightarrow> bool \<Rightarrow> py_error + ('f point list \<times> 'r \<times> bool)" where
  "reseed ops rs points [] s changed = Inr ([], s, changed)"
| "reseed ops rs points (c # cs) s changed =
     (if f_isnan ops (fst c) \<or> f_isnan ops (snd c)
      then (case random_choice rs points s of
              Inl e \<Rightarrow> Inl e
            | Inr (p, s1) \<Rightarrow>
                (case reseed ops rs points cs s1 True of
                   Inl e \<Rightarrow> Inl e
                 | Inr (cs', s2, ch) \<Rightarrow> Inr (p # cs', s2, ch)))
      else (case reseed ops rs points cs s changed of
              Inl e \<Rightarrow> Inl e
            | Inr (cs', s2, ch) \<Rightarrow> Inr (c # cs', s2, ch)))"

text \<open>One pass of the body of the main loop of \<open>kmeans\<close>, up to the test of \<open>changed\<close>.\<close>

definition kmeans_step :: "'f float_ops \<Rightarrow> 'r random_src \<Rightarrow> 'f point list \<Rightarrow> nat \<Rightarrow> nat list \<Rightarrow> 'f point list \<Rightarrow> 'r \<Rightarrow> py_error + (nat list \<times> 'f point list \<times> 'r \<times> bool)" where
  "kmeans_step ops rs points k assignments centroids s =
     (case assign_loop ops centroids k 0 points assignments False of
        Inl e \<Rightarrow> Inl e
      | Inr (a1, ch1) \<Rightarrow>
          (case recompute_centroids ops points a1 k of
             Inl e \<Rightarrow> Inl e
           | Inr cs1 \<Rightarrow>
               (case reseed ops rs points cs1 s ch1 of
                  Inl e \<Rightarrow> Inl e
                | Inr (cs2, s2, ch2) \<Rightarrow> Inr (a1, cs2, s2, ch2))))"

text \<open>
  The main loop \<open>for _ in range(max_iter)\<close>, with the number of passes still allowed.
  Beside the program's state it keeps a log of the value of \<open>changed\<close> at the end of
  each pass it completed, which the program does not return.
\<close>

fun kmeans_loop :: "'f float_ops \<Rightarrow> 'r random_src \<Rightarrow> 'f point list \<Rightarrow> nat \<Rightarrow> nat \<Rightarrow> nat list \<Rightarrow> 'f point list \<Rightarrow> 'r \<Rightarrow> bool list \<Rightarrow> py_error + (nat list \<times> 'f point list \<times> 'r \<times> bool list)" where
  "kmeans_loop ops rs points k 0 assignments centroids s trace = Inr (assignments, centroids, s, trace)"
| "kmeans_loop ops rs points k (Suc m) assignments centroids s trace =
     (case kmeans_step ops rs points k assignments centroids s of
        Inl e \<Rightarrow> Inl e
      | Inr (a', cs', s', changed) \<Rightarrow>
          if \<not> changed then Inr (a', cs', s', trace @ [changed])
          else kmeans_loop ops rs points k m a' cs' s' (trace @ [changed]))"

definition kmeans_run :: "'f float_ops \<Rightarrow> 'r random_src \<Rightarrow> 'f point list \<Rightarrow> nat \<Rightarrow> int \<Rightarrow> 'r \<Rightarrow> py_error + (nat list \<times> 'f point list \<times> 'r \<times> bool list)" where
  "kmeans_run ops rs points k max_iter s =
     (case init_centroids rs points k s of
        Inl e \<Rightarrow> Inl e
      | Inr (centroids, s0) \<Rightarrow>
          kmeans_loop ops rs points k (nat max_iter) (replicate (length points) 0) centroids s0 [])"

text \<open>\<open>kmeans\<close> returns the assignments and the centroids; the random source is left in its new state.\<close>

definition kmeans :: "'f float_ops \<Rightarrow> 'r random_src \<Rightarrow> 'f point list \<Rightarrow> nat \<Rightarrow> int \<Rightarrow> 'r \<Rightarrow> py_error + (nat list \<times> 'f point list \<times> 'r)" where
  "kmeans ops rs points k max_iter s =
     (case kmeans_run ops rs points k max_iter s of
        Inl e \<Rightarrow> Inl e
      | Inr (a, cs, s', trace) \<Rightarrow> Inr (a, cs, s'))"

text \<open>The loop of \<open>main\<close> that counts cluster sizes.\<close>

fun count_loop :: "nat list \<Rightarrow> nat list \<Rightarrow> py_error + nat list" where
  "count_loop [] cluster_counts = Inr cluster_counts"
| "count_loop (a # as) cluster_counts =
     (case py_get cluster_counts a of
        Inl e \<Rightarrow> Inl e
      | Inr n \<Rightarrow> count_loop as (cluster_counts[a := n + 1]))"

definition cluster_sizes :: "nat \<Rightarrow> nat list \<Rightarrow> py_error + nat list" where
  "cluster_sizes k assignments = count_loop assignments (replicate k 0)"

section \<open>The batch: grouping, clustering each group, output rows\<close>

text \<open>
  A row of \<open>student_runs.csv\<close> as \<open>csv.DictReader\<close> gives it for a well-formed
  file: the list of its columns with their values, one pair for each column of the
  header. A row of \<open>student_clusters.csv\<close> is the input row with its
  \<open>cluster_id\<close>. The files themselves are not modelled: \<open>main\<close> takes the rows
  read and returns the two lists of rows it hands to \<open>csv.DictWriter\<close>, which
  refuses a row with a column that is not among the field names.

  Python's \<open>float(...)\<close> on a column and the format \<open>{x:.6f}\<close> are parameters
  (\<open>float_of\<close>, which may raise, and \<open>fmt6\<close>), and so is \<open>random.seed\<close>
  (\<open>seed_state\<close>, from the seed to the state of the random source). The dictionary
  \<open>groups\<close> keeps its keys in the order of their first insertion and is a list of
  pairs. Strings are compared byte by byte, \<open>sort_key\<close> is a stable sort as
  \<open>list.sort\<close> is.
\<close>

type_synonym row = "(string \<times> string) list"

definition dict_get :: "row \<Rightarrow> string \<Rightarrow> py_error + string" where
  "dict_get r c = (case map_of r c of None \<Rightarrow> Inl KeyError | Some v \<Rightarrow> Inr v)"

fun dict_set :: "row \<Rightarrow> string \<Rightarrow> string \<Rightarrow> row" where
  "dict_set [] c v = [(c, v)]"
| "dict_set ((c', v') # r) c v = (if c' = c then (c, v) # r else (c', v') # dict_set r c v)"

record summary_row =
  sum_day :: string
  sum_time_window_start :: string
  sum_time_window_end :: string
  sum_university_id :: string
  sum_cluster_id :: string
  cluster_size :: string
  centroid_lat :: string
  centroid_lng :: string

type_synonym group_key = "string \<times> string \<times> string \<times> string"

definition digit_char :: "nat \<Rightarrow> char" where
  "digit_char d = ''0123456789'' ! d"

fun str_nat :: "nat \<Rightarrow> string" where
  "str_nat n = (if n < 10 then [digit_char n] else str_nat (n div 10) @ [digit_char (n mod 10)])"

declare str_nat.simps [simp del]

definition fmt_02d :: "nat \<Rightarrow> string" where
  "fmt_02d n = (let s = str_nat n in replicate (2 - length s) CHR ''0'' @ s)"

definition cluster_id_of :: "group_key \<Rightarrow> nat \<Rightarrow> string" where
  "cluster_id_of key a =
     (case key of (d, start, end, uni) \<Rightarrow>
        d @ ''_'' @ start @ ''-'' @ end @ ''_'' @ uni @ ''_C'' @ fmt_02d (a + 1))"

definition key_of :: "row \<Rightarrow> py_error + group_key" where
  "key_of r =
     (case dict_get r ''day'' of
        Inl e \<Rightarrow> Inl e
      | Inr d \<Rightarrow>
          (case dict_get r ''time_window_start'' of
             Inl e \<Rightarrow> Inl e
           | Inr start \<Rightarrow>
               (case dict_get r ''time_window_end'' of
                  Inl e \<Rightarrow> Inl e
                | Inr end \<Rightarrow>
                    (case dict_get r ''university_id'' of
                       Inl e \<Rightarrow> Inl e
                     | Inr uni \<Rightarrow> Inr (d, start, end, uni)))))"

fun add_to_group :: "group_key \<Rightarrow> row \<Rightarrow> (group_key \<times> row list) list \<Rightarrow> (group_key \<times> row list) list" where
  "add_to_group key r [] = [(key, [r])]"
| "add_to_group key r ((key', g) # groups) =
     (if key' = key then (key', g @ [r]) # groups
      else (key', g) # add_to_group key r groups)"

fun group_loop :: "row list \<Rightarrow> (group_key \<times> row list) list \<Rightarrow> py_error + (group_key \<times> row list) list" where
  "group_loop [] groups = Inr groups"
| "group_loop (r # rows) groups =
     (case key_of r of
        Inl e \<Rightarrow> Inl e
      | Inr key \<Rightarrow> group_loop rows (add_to_group key r groups))"

fun parse_points :: "(string \<Rightarrow> py_error + 'f) \<Rightarrow> row list \<Rightarrow> py_error + 'f point list" where
  "parse_points float_of [] = Inr []"
| "parse_points float_of (r # g) =
     (case dict_get r ''home_lat'' of
        Inl e \<Rightarrow> Inl e
      | Inr lat \<Rightarrow>
          (case float_of lat of
             Inl e \<Rightarrow> Inl e
           | Inr x \<Rightarrow>
               (case dict_get r ''home_lng'' of
                  Inl e \<Rightarrow> Inl e
                | Inr lng \<Rightarrow>
                    (case float_of lng of
                       Inl e \<Rightarrow> Inl e
                     | Inr y \<Rightarrow>
                         (case parse_points float_of g of
                            Inl e \<Rightarrow> Inl e
                          | Inr ps \<Rightarrow> Inr ((x, y) # ps))))))"

text \<open>The loop over \<open>zip(g, assignments)\<close>: it reads \<open>r["run_id"]\<close> before it copies the row.\<close>

fun out_rows_loop :: "group_key \<Rightarrow> (row \<times> nat) list \<Rightarrow> py_error + row list" where
  "out_rows_loop key [] = Inr []"
| "out_rows_loop key ((r, a) # rest) =
     (case dict_get r ''run_id'' of
        Inl e \<Rightarrow> Inl e
      | Inr run_id \<Rightarrow>
          (case out_rows_loop key rest of
             Inl e \<Rightarrow> Inl e
           | Inr rows \<Rightarrow> Inr (dict_set r ''cluster_id'' (cluster_id_of key a) # rows)))"

fun summary_loop :: "('f \<Rightarrow> string) \<Rightarrow> group_key \<Rightarrow> nat list \<Rightarrow> nat \<Rightarrow> 'f point list \<Rightarrow> py_error + summary_row list" where
  "summary_loop fmt6 key cluster_counts idx [] = Inr []"
| "summary_loop fmt6 key cluster_counts idx (c # centroids) =
     (case py_get cluster_counts idx of
        Inl e \<Rightarrow> Inl e
      | Inr n \<Rightarrow>
          (case summary_loop fmt6 key cluster_counts (Suc idx) centroids of
             Inl e \<Rightarrow> Inl e
           | Inr rows \<Rightarrow>
               Inr (\<lparr>sum_day = fst key, sum_time_window_start = fst (snd key),
                     sum_time_window_end = fst (snd (snd key)),
                     sum_university_id = snd (snd (snd key)),
                     sum_cluster_id = cluster_id_of key idx,
                     cluster_size = str_nat n,
                     centroid_lat = fmt6 (fst c), centroid_lng = fmt6 (snd c)\<rparr> # rows)))"

text \<open>The body of the loop of \<open>main\<close> over the groups.\<close>

definition cluster_group :: "'f float_ops \<Rightarrow> 'r random_src \<Rightarrow> (string \<Rightarrow> py_error + 'f) \<Rightarrow> ('f \<Rightarrow> string) \<Rightarrow> int \<Rightarrow> int \<Rightarrow> group_key \<Rightarrow> row list \<Rightarrow> 'r \<Rightarrow> py_error + (row list \<times> summary_row list \<times> 'r)" where
  "cluster_group ops rs float_of fmt6 target_capacity max_iter key g s =
     (case choose_k (int (length g)) target_capacity of
        Inl e \<Rightarrow> Inl e
      | Inr k \<Rightarrow>
          (case parse_points float_of g of
             Inl e \<Rightarrow> Inl e
           | Inr points \<Rightarrow>
               (case kmeans ops rs points (nat k) max_iter s of
                  Inl e \<Rightarrow> Inl e
                | Inr (assignments, centroids, s') \<Rightarrow>
                    (case cluster_sizes (nat k) assignments of
                       Inl e \<Rightarrow> Inl e
                     | Inr cluster_counts \<Rightarrow>
                         (case out_rows_loop key (zip g assignments) of
                            Inl e \<Rightarrow> Inl e
                          | Inr rows \<Rightarrow>
                              (case summary_loop fmt6 key cluster_counts 0 centroids of
                                 Inl e \<Rightarrow> Inl e
                               | Inr srows \<Rightarrow> Inr (rows, srows, s')))))))"

fun groups_loop :: "'f float_ops \<Rightarrow> 'r random_src \<Rightarrow> (string \<Rightarrow> py_error + 'f) \<Rightarrow> ('f \<Rightarrow> string) \<Rightarrow> int \<Rightarrow> int \<Rightarrow> (group_key \<times> row list) list \<Rightarrow> 'r \<Rightarrow> row list \<Rightarrow> summary_row list \<Rightarrow> py_error + (row list \<times> summary_row list)" where
  "groups_loop ops rs float_of fmt6 target_capacity max_iter [] s out_rows summary_rows =
     Inr (out_rows, summary_rows)"
| "groups_loop ops rs float_of fmt6 target_capacity max_iter ((key, g) # groups) s out_rows summary_rows =
     (case cluster_group ops rs float_of fmt6 target_capacity max_iter key g s of
        Inl e \<Rightarrow> Inl e
      | Inr (rows, srows, s') \<Rightarrow>
          groups_loop ops rs float_of fmt6 target_capacity max_iter groups s'
            (out_rows @ rows) (summary_rows @ srows))"

text \<open>The sort key of an assignment row; every column but \<open>student_id\<close> has been read before.\<close>

definition out_sort_key :: "row \<Rightarrow> py_error + (string \<times> string \<times> string \<times> string \<times> string)" where
  "out_sort_key r =
     (case dict_get r ''day'' of
        Inl e \<Rightarrow> Inl e
      | Inr d \<Rightarrow>
          (case dict_get r ''time_window_start'' of
             Inl e \<Rightarrow> Inl e
           | Inr start \<Rightarrow>
               (case dict_get r ''university_id'' of
                  Inl e \<Rightarrow> Inl e
                | Inr uni \<Rightarrow>
                    (case dict_get r ''cluster_id'' of
                       Inl e \<Rightarrow> Inl e
                     | Inr cid \<Rightarrow>
                         (case dict_get r ''student_id'' of
                            Inl e \<Rightarrow> Inl e
                          | Inr sid \<Rightarrow> Inr (d, start, uni, cid, sid))))))"

fun with_keys :: "('a \<Rightarrow> py_error + 'k) \<Rightarrow> 'a list \<Rightarrow> py_error + ('k \<times> 'a) list" where
  "with_keys f [] = Inr []"
| "with_keys f (x # xs) =
     (case f x of
        Inl e \<Rightarrow> Inl e
      | Inr k \<Rightarrow>
          (case with_keys f xs of
             Inl e \<Rightarrow> Inl e
           | Inr kxs \<Rightarrow> Inr ((k, x) # kxs)))"

definition summary_sort_key :: "summary_row \<Rightarrow> string \<times> string \<times> string \<times> string" where
  "summary_sort_key r = (sum_day r, sum_time_window_start r, sum_university_id r, sum_cluster_id r)"

definition out_fields :: "string list" where
  "out_fields = [''run_id'', ''day'', ''time_window_start'', ''time_window_end'', ''student_id'',
     ''home_lat'', ''home_lng'', ''university_id'', ''cluster_id'']"

text \<open>\<open>csv.DictWriter\<close> raises \<open>ValueError\<close> on a row with a key outside its field names.\<close>

definition fields_ok :: "string list \<Rightarrow> row list \<Rightarrow> bool" where
  "fields_ok fieldnames rows = list_all (\<lambda>r. list_all (\<lambda>c. c \<in> set fieldnames) (map fst r)) rows"

text \<open>
  \<open>main\<close>: \<open>ambient\<close> is the state the process-wide random source is in when
  \<open>main\<close> starts; \<open>random.seed(args.seed)\<close> replaces it.
\<close>

definition main :: "'f float_ops \<Rightarrow> 'r random_src \<Rightarrow> (int \<Rightarrow> 'r) \<Rightarrow> (string \<Rightarrow> py_error + 'f) \<Rightarrow> ('f \<Rightarrow> string) \<Rightarrow> 'r \<Rightarrow> int \<Rightarrow> int \<Rightarrow> int \<Rightarrow> row list \<Rightarrow> py_error + (row list \<times> summary_row list)" where
  "main ops rs seed_state float_of fmt6 ambient seed target_capacity max_iter rows =
     (let s = seed_state seed
      in if rows = [] then Inl ValueError
         else (case group_loop rows [] of
                 Inl e \<Rightarrow> Inl e
               | Inr groups \<Rightarrow>
                   (case groups_loop ops rs float_of fmt6 target_capacity max_iter groups s [] [] of
                      Inl e \<Rightarrow> Inl e
                    | Inr (out_rows, summary_rows) \<Rightarrow>
                        (case with_keys out_sort_key out_rows of
                           Inl e \<Rightarrow> Inl e
                         | Inr keyed \<Rightarrow>
                             (let sorted_rows = map snd (sort_key fst keyed);
                                  sorted_summary = sort_key summary_sort_key summary_rows
                              in if fields_ok out_fields sorted_rows
                                 then Inr (sorted_rows, sorted_summary)
                                 else Inl ValueError)))))"

section \<open>Binary64 arithmetic, for the examples\<close>

text \<open>
  The examples are evaluated in binary64 arithmetic: a float is a real number, an
  infinity or not-a-number; the sum, the difference and the quotient by a count are the
  exact results rounded by \<open>rnd64\<close>, infinite when the rounded result reaches
  \<open>2 ^ 1024\<close>; \<open>x ** 2\<close> is the rounded square and raises when it reaches
  \<open>2 ^ 1024\<close>; not-a-number propagates and makes every comparison false. The sign of
  a zero is not kept. The random source of the examples has a counter as its state: its
  raw draw is the counter, and its raw selections are the next values of the counter.
\<close>

datatype pyfloat = Num real | PInf | NInf | NaN

definition round64 :: "real \<Rightarrow> pyfloat" where
  "round64 r =
     (let q = rnd64 r
      in if 2 ^ 1024 \<le> q then PInf else if q \<le> - (2 ^ 1024) then NInf else Num q)"

fun fneg :: "pyfloat \<Rightarrow> pyfloat" where
  "fneg (Num a) = Num (- a)"
| "fneg PInf = NInf"
| "fneg NInf = PInf"
| "fneg NaN = NaN"

fun fadd :: "pyfloat \<Rightarrow> pyfloat \<Rightarrow> pyfloat" where
  "fadd (Num a) (Num b) = round64 (a + b)"
| "fadd NaN y = NaN"
| "fadd x NaN = NaN"
| "fadd PInf NInf = NaN"
| "fadd NInf PInf = NaN"
| "fadd PInf y = PInf"
| "fadd x PInf = PInf"
| "fadd NInf y = NInf"
| "fadd x NInf = NInf"

definition fsub :: "pyfloat \<Rightarrow> pyfloat \<Rightarrow> pyfloat" where
  "fsub x y = fadd x (fneg y)"

fun fsq :: "pyfloat \<Rightarrow> pyfloat option" where
  "fsq (Num a) = (let q = rnd64 (a * a) in if 2 ^ 1024 \<le> q then None else Some (Num q))"
| "fsq PInf = Some PInf"
| "fsq NInf = Some PInf"
| "fsq NaN = Some NaN"

fun fdiv_count :: "pyfloat \<Rightarrow> nat \<Rightarrow> pyfloat" where
  "fdiv_count (Num a) n = round64 (a / real n)"
| "fdiv_count PInf n = PInf"
| "fdiv_count NInf n = NInf"
| "fdiv_count NaN n = NaN"

fun flt :: "pyfloat \<Rightarrow> pyfloat \<Rightarrow> bool" where
  "flt (Num a) (Num b) = (a < b)"
| "flt NInf (Num b) = True"
| "flt NInf PInf = True"
| "flt (Num a) PInf = True"
| "flt x y = False"

fun isnan :: "pyfloat \<Rightarrow> bool" where
  "isnan NaN = True"
| "isnan x = False"

definition py64 :: "pyfloat float_ops" where
  "py64 = \<lparr>f_zero = Num 0, f_nan = NaN, f_add = fadd, f_sub = fsub, f_sq = fsq,
           f_div_count = fdiv_count, f_lt = flt, f_isnan = isnan\<rparr>"

definition counter_src :: "nat random_src" where
  "counter_src = \<lparr>draw = (\<lambda>n s. (s, Suc s)), pick = (\<lambda>n k s. ((\<lambda>i. s + i), s + k))\<rparr>"

section \<open>Notions used in the statements and proofs\<close>

text \<open>
  The pointwise sum of two points, the index \<open>nearest\<close> returns (0 where it raises),
  a centroid with a not-a-number coordinate, the points a list of pairs assigns to a
  cluster, the centroids \<open>recompute_centroids\<close> returns, the caller's precondition of
  \<open>kmeans\<close>, and what the proofs use of the comparison of floats: nothing is less
  than itself, and less-than is transitive.
\<close>

definition point_add :: "'f float_ops \<Rightarrow> 'f point \<Rightarrow> 'f point \<Rightarrow> 'f point" where
  "point_add ops s p = (f_add ops (fst s) (fst p), f_add ops (snd s) (snd p))"

definition best_of :: "'f float_ops \<Rightarrow> 'f point list \<Rightarrow> nat \<Rightarrow> 'f point \<Rightarrow> nat" where
  "best_of ops centroids k p = (case nearest ops p centroids k of Inl e \<Rightarrow> 0 | Inr b \<Rightarrow> b)"

definition has_nan :: "'f float_ops \<Rightarrow> 'f point \<Rightarrow> bool" where
  "has_nan ops c = (f_isnan ops (fst c) \<or> f_isnan ops (snd c))"

definition cluster_points :: "('f point \<times> nat) list \<Rightarrow> nat \<Rightarrow> 'f point list" where
  "cluster_points pcs c = map fst (filter (\<lambda>pc. snd pc = c) pcs)"

definition recomputed :: "'f float_ops \<Rightarrow> 'f point list \<Rightarrow> nat list \<Rightarrow> nat \<Rightarrow> 'f point list" where
  "recomputed ops points a k =
     map (\<lambda>c. centroid_of ops
                 (foldl (point_add ops) (f_zero ops, f_zero ops) (cluster_points (zip points a) c),
                  length (cluster_points (zip points a) c))) [0..<k]"

definition engine_pre :: "'f point list \<Rightarrow> nat \<Rightarrow> bool" where
  "engine_pre points k = ((points \<noteq> []) = (1 \<le> k) \<and> k \<le> length points)"

definition lt_order :: "'f float_ops \<Rightarrow> bool" where
  "lt_order ops =
     ((\<forall>x. \<not> f_lt ops x x) \<and> (\<forall>x y z. f_lt ops x y \<longrightarrow> f_lt ops y z \<longrightarrow> f_lt ops x z))"

text \<open>
  The centroid \<open>recompute_centroids\<close> gives a cluster that holds exactly the points
  \<open>ps\<close>: the coordinates are added to \<open>0.0\<close> in the order of the list, and
  each sum is divided by the number of points.
\<close>

definition mean_point :: "'f float_ops \<Rightarrow> 'f point list \<Rightarrow> 'f point" where
  "mean_point ops ps =
     centroid_of ops (foldl (point_add ops) (f_zero ops, f_zero ops) ps, length ps)"

section \<open>Draws, distances and the assign step\<close>

lemma randbelow_lt: "0 < n \<Longrightarrow> fst (randbelow rs n s) < n"
  by (simp add: randbelow_def split: prod.splits)

lemma random_choice_ok:
  "xs \<noteq> [] \<Longrightarrow> \<exists>x s'. random_choice rs xs s = Inr (x, s') \<and> x \<in> set xs"
  unfolding random_choice_def using randbelow_lt[of "length xs" rs s]
  by (auto split: prod.splits)

lemma random_sample_ok:
  assumes "k \<le> length population"
  shows "\<exists>xs s'. random_sample rs population k s = Inr (xs, s') \<and> length xs = k \<and>
           set xs \<subseteq> set population"
proof -
  obtain sel s' where p: "pick rs (length population) k s = (sel, s')"
    by (cases "pick rs (length population) k s")
  let ?xs = "map (\<lambda>i. population ! (sel i mod length population)) [0..<k]"
  have "set ?xs \<subseteq> set population"
  proof
    fix x assume "x \<in> set ?xs"
    then obtain i where i: "i < k" "x = population ! (sel i mod length population)" by auto
    then have "0 < length population" using assms by linarith
    then have "sel i mod length population < length population" by simp
    with i show "x \<in> set population" by simp
  qed
  then show ?thesis using assms p by (simp add: random_sample_def)
qed

lemma init_centroids_ok:
  assumes "k \<le> length points"
  shows "\<exists>cs s'. init_centroids rs points k s = Inr (cs, s') \<and> length cs = k \<and>
           set cs \<subseteq> set points"
proof (cases "k = length points")
  case True
  then show ?thesis by (simp add: init_centroids_def)
next
  case False
  with assms have "\<not> length points \<le> k" by simp
  with random_sample_ok[OF assms, of rs s] show ?thesis by (simp add: init_centroids_def)
qed

lemma euclidean2_cases:
  "euclidean2 ops a b = Inl OverflowError \<or> (\<exists>d. euclidean2 ops a b = Inr d)"
  by (simp add: euclidean2_def split: option.splits)

lemma nearest_scan_ok:
  "\<forall>c\<in>set cs. c < length centroids \<and> c < k \<Longrightarrow> best_c < k \<Longrightarrow>
   nearest_scan ops p centroids cs best_c best_d = Inl OverflowError \<or>
   (\<exists>b. nearest_scan ops p centroids cs best_c best_d = Inr b \<and> b < k)"
proof (induction cs arbitrary: best_c best_d)
  case Nil
  then show ?case by simp
next
  case (Cons c cs)
  have c: "c < length centroids" "c < k" and rest: "\<forall>c\<in>set cs. c < length centroids \<and> c < k"
    using Cons.prems(1) by auto
  from euclidean2_cases[of ops p "centroids ! c"] show ?case
  proof
    assume "euclidean2 ops p (centroids ! c) = Inl OverflowError"
    then show ?thesis using c by (simp add: py_get_def)
  next
    assume "\<exists>d. euclidean2 ops p (centroids ! c) = Inr d"
    then obtain d where d: "euclidean2 ops p (centroids ! c) = Inr d" ..
    show ?thesis
    proof (cases "f_lt ops d best_d")
      case True
      with Cons.IH[OF rest c(2), of d] d c show ?thesis by (simp add: py_get_def)
    next
      case False
      with Cons.IH[OF rest Cons.prems(2), of best_d] d c show ?thesis by (simp add: py_get_def)
    qed
  qed
qed

lemma nearest_ok:
  assumes "1 \<le> k" "k \<le> length centroids"
  shows "nearest ops p centroids k = Inl OverflowError \<or>
         (\<exists>b. nearest ops p centroids k = Inr b \<and> b < k)"
proof -
  have r: "\<forall>c\<in>set [1..<k]. c < length centroids \<and> c < k" using assms by auto
  have k0: "0 < k" using assms by simp
  have l0: "0 < length centroids" using assms by linarith
  from euclidean2_cases[of ops p "centroids ! 0"] show ?thesis
  proof
    assume "euclidean2 ops p (centroids ! 0) = Inl OverflowError"
    then show ?thesis using l0 by (simp add: nearest_def py_get_def)
  next
    assume "\<exists>d. euclidean2 ops p (centroids ! 0) = Inr d"
    then obtain d where d: "euclidean2 ops p (centroids ! 0) = Inr d" ..
    from nearest_scan_ok[OF r k0, of ops p d] d l0 show ?thesis
      by (simp add: nearest_def py_get_def)
  qed
qed

lemma best_of_lt:
  assumes "1 \<le> k" "k \<le> length centroids"
  shows "best_of ops centroids k p < k"
  using nearest_ok[OF assms, of ops p] assms(1) by (auto simp: best_of_def)

lemma best_of_eq: "nearest ops p centroids k = Inr b \<Longrightarrow> best_of ops centroids k p = b"
  by (simp add: best_of_def)

lemma assign_loop_cases:
  assumes "1 \<le> k" "k \<le> length centroids"
  shows "length a = i + length ps \<Longrightarrow>
    assign_loop ops centroids k i ps a ch = Inl OverflowError \<or>
    ((\<forall>p\<in>set ps. nearest ops p centroids k = Inr (best_of ops centroids k p)) \<and>
     assign_loop ops centroids k i ps a ch =
       Inr (take i a @ map (best_of ops centroids k) ps,
            ch \<or> drop i a \<noteq> map (best_of ops centroids k) ps))"
proof (induction ps arbitrary: i a ch)
  case Nil
  then show ?case by simp
next
  case (Cons p ps)
  let ?b = "best_of ops centroids k p"
  from nearest_ok[OF assms, of ops p] show ?case
  proof
    assume "nearest ops p centroids k = Inl OverflowError"
    then show ?thesis by simp
  next
    assume "\<exists>b. nearest ops p centroids k = Inr b \<and> b < k"
    then obtain b where "nearest ops p centroids k = Inr b" by blast
    then have n: "nearest ops p centroids k = Inr ?b" by (simp add: best_of_def)
    have i: "i < length a" using Cons.prems by simp
    have dr: "drop i a = a ! i # drop (Suc i) a" using i by (simp add: Cons_nth_drop_Suc)
    show ?thesis
    proof (cases "a ! i = ?b")
      case True
      have l: "length a = Suc i + length ps" using Cons.prems by simp
      from Cons.IH[OF l, of ch] show ?thesis
      proof
        assume "assign_loop ops centroids k (Suc i) ps a ch = Inl OverflowError"
        then show ?thesis using True n i by (simp add: py_get_def)
      next
        assume "(\<forall>p\<in>set ps. nearest ops p centroids k = Inr (best_of ops centroids k p)) \<and>
          assign_loop ops centroids k (Suc i) ps a ch =
            Inr (take (Suc i) a @ map (best_of ops centroids k) ps,
                 ch \<or> drop (Suc i) a \<noteq> map (best_of ops centroids k) ps)"
        then show ?thesis using True n i dr
          by (simp add: py_get_def take_Suc_conv_app_nth)
      qed
    next
      case False
      have l: "length (a[i := ?b]) = Suc i + length ps" using Cons.prems by simp
      from Cons.IH[OF l, of True] show ?thesis
      proof
        assume "assign_loop ops centroids k (Suc i) ps (a[i := ?b]) True = Inl OverflowError"
        then show ?thesis using False n i by (simp add: py_get_def)
      next
        assume "(\<forall>p\<in>set ps. nearest ops p centroids k = Inr (best_of ops centroids k p)) \<and>
          assign_loop ops centroids k (Suc i) ps (a[i := ?b]) True =
            Inr (take (Suc i) (a[i := ?b]) @ map (best_of ops centroids k) ps,
                 True \<or> drop (Suc i) (a[i := ?b]) \<noteq> map (best_of ops centroids k) ps)"
        then show ?thesis using False n i dr
          by (simp add: py_get_def take_Suc_conv_app_nth)
      qed
    qed
  qed
qed

lemma count_loop_ok:
  "\<forall>x\<in>set as. x < length cc \<Longrightarrow>
   \<exists>cc'. count_loop as cc = Inr cc' \<and> length cc' = length cc \<and> sum_list cc' = sum_list cc + length as"
proof (induction as arbitrary: cc)
  case Nil
  then show ?case by simp
next
  case (Cons a as)
  have a: "a < length cc" using Cons.prems by simp
  have "\<forall>x\<in>set as. x < length (cc[a := cc ! a + 1])" using Cons.prems by simp
  from Cons.IH[OF this] obtain cc' where
    r: "count_loop as (cc[a := cc ! a + 1]) = Inr cc'" "length cc' = length cc"
       "sum_list cc' = sum_list (cc[a := cc ! a + 1]) + length as" by auto
  have "sum_list (cc[a := cc ! a + 1]) = sum_list cc + 1"
    using a by (simp add: sum_list_update)
  with r a show ?case by (simp add: py_get_def)
qed

lemma reseed_ok:
  "points \<noteq> [] \<or> (\<forall>c\<in>set cs. \<not> has_nan ops c) \<Longrightarrow>
   \<exists>cs' s'. reseed ops rs points cs s ch = Inr (cs', s', ch \<or> (\<exists>c\<in>set cs. has_nan ops c)) \<and>
     length cs' = length cs \<and>
     (\<forall>j<length cs. if has_nan ops (cs ! j) then cs' ! j \<in> set points else cs' ! j = cs ! j)"
proof (induction cs arbitrary: s ch)
  case Nil
  then show ?case by simp
next
  case (Cons c cs)
  have pre: "points \<noteq> [] \<or> (\<forall>c\<in>set cs. \<not> has_nan ops c)" using Cons.prems by auto
  show ?case
  proof (cases "has_nan ops c")
    case True
    then have ne: "points \<noteq> []" using Cons.prems by auto
    from random_choice_ok[OF ne, of rs s] obtain p s1 where
      rc: "random_choice rs points s = Inr (p, s1)" "p \<in> set points" by auto
    from Cons.IH[OF pre, of s1 True] obtain cs' s' where
      r: "reseed ops rs points cs s1 True = Inr (cs', s', True)" "length cs' = length cs"
         "\<forall>j<length cs. if has_nan ops (cs ! j) then cs' ! j \<in> set points else cs' ! j = cs ! j"
      by auto
    have "\<forall>j<length (c # cs). if has_nan ops ((c # cs) ! j) then (p # cs') ! j \<in> set points
            else (p # cs') ! j = (c # cs) ! j"
      using r(3) rc(2) True by (auto simp: nth_Cons split: nat.splits)
    with True rc r show ?thesis by (simp add: has_nan_def)
  next
    case False
    from Cons.IH[OF pre, of s ch] obtain cs' s' where
      r: "reseed ops rs points cs s ch = Inr (cs', s', ch \<or> (\<exists>c\<in>set cs. has_nan ops c))"
         "length cs' = length cs"
         "\<forall>j<length cs. if has_nan ops (cs ! j) then cs' ! j \<in> set points else cs' ! j = cs ! j"
      by auto
    have "\<forall>j<length (c # cs). if has_nan ops ((c # cs) ! j) then (c # cs') ! j \<in> set points
            else (c # cs') ! j = (c # cs) ! j"
      using r(3) False by (auto simp: nth_Cons split: nat.splits)
    with False r show ?thesis by (simp add: has_nan_def)
  qed
qed

lemma reseed_no_nan:
  "\<forall>c\<in>set cs. \<not> has_nan ops c \<Longrightarrow> reseed ops rs points cs s ch = Inr (cs, s, ch)"
  by (induction cs arbitrary: s ch) (auto simp: has_nan_def)

lemma cluster_points_Cons:
  "cluster_points ((p, c) # pcs) j = (if c = j then p # cluster_points pcs j else cluster_points pcs j)"
  by (simp add: cluster_points_def)

lemma accumulate_result:
  "length C = length S \<Longrightarrow> \<forall>pc\<in>set pcs. snd pc < length S \<Longrightarrow>
   accumulate ops pcs S C =
     Inr (map (\<lambda>c. foldl (point_add ops) (S ! c) (cluster_points pcs c)) [0..<length S],
          map (\<lambda>c. C ! c + length (cluster_points pcs c)) [0..<length S])"
proof (induction pcs arbitrary: S C)
  case Nil
  have "map (\<lambda>c. S ! c) [0..<length S] = S" by (rule map_nth)
  moreover have "map (\<lambda>c. C ! c) [0..<length S] = C" using Nil.prems(1) map_nth[of C] by simp
  ultimately show ?case by (simp add: cluster_points_def)
next
  case (Cons pc pcs)
  obtain p c where pc: "pc = (p, c)" by (cases pc)
  have c: "c < length S" "c < length C" using Cons.prems pc by auto
  let ?S = "S[c := (f_add ops (fst (S ! c)) (fst p), f_add ops (snd (S ! c)) (snd p))]"
  let ?C = "C[c := C ! c + 1]"
  have l: "length ?C = length ?S" using Cons.prems(1) by simp
  have m: "\<forall>pc\<in>set pcs. snd pc < length ?S" using Cons.prems(2) by simp
  have s: "map (\<lambda>j. foldl (point_add ops) (?S ! j) (cluster_points pcs j)) [0..<length S] =
           map (\<lambda>j. foldl (point_add ops) (S ! j) (cluster_points ((p, c) # pcs) j)) [0..<length S]"
    using c by (intro map_cong) (auto simp: cluster_points_Cons point_add_def)
  have n: "map (\<lambda>j. ?C ! j + length (cluster_points pcs j)) [0..<length S] =
           map (\<lambda>j. C ! j + length (cluster_points ((p, c) # pcs) j)) [0..<length S]"
    using c Cons.prems(1) by (intro map_cong) (auto simp: cluster_points_Cons)
  from Cons.IH[OF l m] s n c show ?case by (simp add: pc py_get_def)
qed

lemma recompute_centroids_result:
  assumes "\<forall>x\<in>set a. x < k"
  shows "recompute_centroids ops points a k = Inr (recomputed ops points a k)"
proof -
  have m: "\<forall>pc\<in>set (zip points a). snd pc < length (replicate k (f_zero ops, f_zero ops))"
    using assms by (auto dest: set_zip_rightD)
  have l: "length (replicate k (0::nat)) = length (replicate k (f_zero ops, f_zero ops))" by simp
  have "map (centroid_of ops) (zip
          (map (\<lambda>c. foldl (point_add ops) (replicate k (f_zero ops, f_zero ops) ! c)
                     (cluster_points (zip points a) c)) [0..<k])
          (map (\<lambda>c. replicate k (0::nat) ! c + length (cluster_points (zip points a) c)) [0..<k]))
        = recomputed ops points a k"
    by (rule nth_equalityI) (simp_all add: recomputed_def)
  with accumulate_result[OF l m, of ops] show ?thesis by (simp add: recompute_centroids_def)
qed

lemma length_recomputed: "length (recomputed ops points a k) = k"
  by (simp add: recomputed_def)

section \<open>One pass and the main loop\<close>

lemma engine_pre_step:
  assumes "engine_pre points k" "length cs = k"
  shows "(points = [] \<and> k = 0) \<or> (points \<noteq> [] \<and> 1 \<le> k \<and> k \<le> length cs)"
  using assms by (auto simp: engine_pre_def)

lemma best_of_all_lt:
  assumes "(points = [] \<and> k = 0) \<or> (points \<noteq> [] \<and> 1 \<le> k \<and> k \<le> length cs)"
  shows "\<forall>x\<in>set (map (best_of ops cs k) points). x < k"
proof (cases "points = []")
  case True
  then show ?thesis by simp
next
  case False
  with assms have k: "1 \<le> k" "k \<le> length cs" by auto
  show ?thesis using best_of_lt[OF k] by auto
qed

lemma kmeans_step_cases:
  assumes pre: "(points = [] \<and> k = 0) \<or> (points \<noteq> [] \<and> 1 \<le> k \<and> k \<le> length cs)"
    and la: "length a = length points"
  shows "kmeans_step ops rs points k a cs s = Inl OverflowError \<or>
         ((\<forall>p\<in>set points. nearest ops p cs k = Inr (best_of ops cs k p)) \<and>
          (\<exists>cs' s'. kmeans_step ops rs points k a cs s =
             Inr (map (best_of ops cs k) points, cs', s',
                  a \<noteq> map (best_of ops cs k) points \<or>
                  (\<exists>c\<in>set (recomputed ops points (map (best_of ops cs k) points) k). has_nan ops c)) \<and>
             length cs' = k \<and>
             (\<forall>j<k. if has_nan ops (recomputed ops points (map (best_of ops cs k) points) k ! j)
                    then cs' ! j \<in> set points
                    else cs' ! j = recomputed ops points (map (best_of ops cs k) points) k ! j)))"
proof -
  let ?a = "map (best_of ops cs k) points"
  let ?r = "recomputed ops points ?a k"
  have as: "assign_loop ops cs k 0 points a False = Inl OverflowError \<or>
            ((\<forall>p\<in>set points. nearest ops p cs k = Inr (best_of ops cs k p)) \<and>
             assign_loop ops cs k 0 points a False = Inr (?a, a \<noteq> ?a))"
  proof (cases "points = []")
    case True
    with la show ?thesis by simp
  next
    case False
    with pre have k: "1 \<le> k" "k \<le> length cs" by auto
    have "length a = 0 + length points" using la by simp
    from assign_loop_cases[OF k this, of ops False] show ?thesis by simp
  qed
  from as show ?thesis
  proof
    assume "assign_loop ops cs k 0 points a False = Inl OverflowError"
    then show ?thesis by (simp add: kmeans_step_def)
  next
    assume ok: "(\<forall>p\<in>set points. nearest ops p cs k = Inr (best_of ops cs k p)) \<and>
             assign_loop ops cs k 0 points a False = Inr (?a, a \<noteq> ?a)"
    have lt: "\<forall>x\<in>set ?a. x < k" by (rule best_of_all_lt[OF pre])
    have rc: "recompute_centroids ops points ?a k = Inr ?r"
      by (rule recompute_centroids_result[OF lt])
    have "points \<noteq> [] \<or> (\<forall>c\<in>set ?r. \<not> has_nan ops c)"
      using pre by (auto simp: recomputed_def)
    from reseed_ok[OF this, of rs s "a \<noteq> ?a"] obtain cs' s' where
      rs: "reseed ops rs points ?r s (a \<noteq> ?a) =
             Inr (cs', s', a \<noteq> ?a \<or> (\<exists>c\<in>set ?r. has_nan ops c))"
          "length cs' = length ?r"
          "\<forall>j<length ?r. if has_nan ops (?r ! j) then cs' ! j \<in> set points else cs' ! j = ?r ! j"
      by blast
    have "kmeans_step ops rs points k a cs s =
            Inr (?a, cs', s', a \<noteq> ?a \<or> (\<exists>c\<in>set ?r. has_nan ops c))"
      using ok by (simp add: kmeans_step_def rc rs(1))
    with rs(2,3) ok show ?thesis by (simp add: length_recomputed)
  qed
qed

lemma kmeans_step_inv:
  assumes pre: "engine_pre points k" and la: "length a = length points" and lc: "length cs = k"
  shows "kmeans_step ops rs points k a cs s = Inl OverflowError \<or>
         (\<exists>a1 cs1 s1 ch. kmeans_step ops rs points k a cs s = Inr (a1, cs1, s1, ch) \<and>
           length a1 = length points \<and> (\<forall>x\<in>set a1. x < k) \<and> length cs1 = k \<and>
           (\<forall>c\<in>set cs1. has_nan ops c \<longrightarrow> c \<in> set points))"
proof -
  let ?a = "map (best_of ops cs k) points"
  let ?r = "recomputed ops points ?a k"
  have sp: "(points = [] \<and> k = 0) \<or> (points \<noteq> [] \<and> 1 \<le> k \<and> k \<le> length cs)"
    by (rule engine_pre_step[OF pre lc])
  from kmeans_step_cases[OF sp la, of ops rs s] show ?thesis
  proof
    assume "kmeans_step ops rs points k a cs s = Inl OverflowError"
    then show ?thesis by simp
  next
    assume "(\<forall>p\<in>set points. nearest ops p cs k = Inr (best_of ops cs k p)) \<and>
          (\<exists>cs' s'. kmeans_step ops rs points k a cs s =
             Inr (?a, cs', s', a \<noteq> ?a \<or> (\<exists>c\<in>set ?r. has_nan ops c)) \<and>
             length cs' = k \<and>
             (\<forall>j<k. if has_nan ops (?r ! j) then cs' ! j \<in> set points else cs' ! j = ?r ! j))"
    then obtain cs' s' where
      st: "kmeans_step ops rs points k a cs s =
             Inr (?a, cs', s', a \<noteq> ?a \<or> (\<exists>c\<in>set ?r. has_nan ops c))"
      and lc': "length cs' = k"
      and rs: "\<forall>j<k. if has_nan ops (?r ! j) then cs' ! j \<in> set points else cs' ! j = ?r ! j"
      by blast
    have lt: "\<forall>x\<in>set ?a. x < k" by (rule best_of_all_lt[OF sp])
    have nn: "\<forall>c\<in>set cs'. has_nan ops c \<longrightarrow> c \<in> set points"
    proof (intro ballI impI)
      fix c assume "c \<in> set cs'" and hn: "has_nan ops c"
      then obtain j where j: "j < k" "cs' ! j = c" using lc' by (auto simp: in_set_conv_nth)
      show "c \<in> set points"
      proof (cases "has_nan ops (?r ! j)")
        case True
        with rs j show ?thesis by auto
      next
        case False
        with rs j have "c = ?r ! j" by auto
        with False hn show ?thesis by simp
      qed
    qed
    from st lc' lt nn show ?thesis by simp
  qed
qed

lemma kmeans_loop_result:
  assumes pre: "engine_pre points k"
  shows "length a = length points \<Longrightarrow> length cs = k \<Longrightarrow> \<forall>x\<in>set a. x < k \<Longrightarrow>
    kmeans_loop ops rs points k m a cs s tr = Inl OverflowError \<or>
    (\<exists>a' cs' s' tr'. kmeans_loop ops rs points k m a cs s tr = Inr (a', cs', s', tr @ tr') \<and>
       length a' = length points \<and> (\<forall>x\<in>set a'. x < k) \<and> length cs' = k \<and>
       length tr' \<le> m \<and> (\<forall>j<length tr'. \<not> tr' ! j \<longrightarrow> Suc j = length tr') \<and>
       (length tr' < m \<longrightarrow> tr' \<noteq> [] \<and> \<not> last tr') \<and>
       (if tr' = [] then cs' = cs else (\<forall>c\<in>set cs'. has_nan ops c \<longrightarrow> c \<in> set points)))"
proof (induction m arbitrary: a cs s tr)
  case 0
  then show ?case by simp
next
  case (Suc m)
  from kmeans_step_inv[OF pre Suc.prems(1,2), of ops rs s] show ?case
  proof
    assume "kmeans_step ops rs points k a cs s = Inl OverflowError"
    then show ?thesis by simp
  next
    assume "\<exists>a1 cs1 s1 ch. kmeans_step ops rs points k a cs s = Inr (a1, cs1, s1, ch) \<and>
           length a1 = length points \<and> (\<forall>x\<in>set a1. x < k) \<and> length cs1 = k \<and>
           (\<forall>c\<in>set cs1. has_nan ops c \<longrightarrow> c \<in> set points)"
    then obtain a1 cs1 s1 ch where
      st: "kmeans_step ops rs points k a cs s = Inr (a1, cs1, s1, ch)"
      and la1: "length a1 = length points" and lt1: "\<forall>x\<in>set a1. x < k"
      and lc1: "length cs1 = k" and nn1: "\<forall>c\<in>set cs1. has_nan ops c \<longrightarrow> c \<in> set points"
      by blast
    show ?thesis
    proof (cases ch)
      case False
      have "kmeans_loop ops rs points k (Suc m) a cs s tr = Inr (a1, cs1, s1, tr @ [False])"
        using st False by simp
      moreover have "length [False] \<le> Suc m" by simp
      moreover have "\<forall>j<length [False]. \<not> [False] ! j \<longrightarrow> Suc j = length [False]" by simp
      moreover have "length [False] < Suc m \<longrightarrow> [False] \<noteq> [] \<and> \<not> last [False]" by simp
      moreover have "if [False] = [] then cs1 = cs
                     else (\<forall>c\<in>set cs1. has_nan ops c \<longrightarrow> c \<in> set points)"
        using nn1 by simp
      ultimately show ?thesis using la1 lt1 lc1 by blast
    next
      case True
      from Suc.IH[OF la1 lc1 lt1, of s1 "tr @ [True]"] show ?thesis
      proof
        assume "kmeans_loop ops rs points k m a1 cs1 s1 (tr @ [True]) = Inl OverflowError"
        then show ?thesis using st True by simp
      next
        assume "\<exists>a' cs' s' tr'. kmeans_loop ops rs points k m a1 cs1 s1 (tr @ [True]) =
                  Inr (a', cs', s', (tr @ [True]) @ tr') \<and>
           length a' = length points \<and> (\<forall>x\<in>set a'. x < k) \<and> length cs' = k \<and>
           length tr' \<le> m \<and> (\<forall>j<length tr'. \<not> tr' ! j \<longrightarrow> Suc j = length tr') \<and>
           (length tr' < m \<longrightarrow> tr' \<noteq> [] \<and> \<not> last tr') \<and>
           (if tr' = [] then cs' = cs1 else (\<forall>c\<in>set cs'. has_nan ops c \<longrightarrow> c \<in> set points))"
        then obtain a' cs' s' tr' where
          lp: "kmeans_loop ops rs points k m a1 cs1 s1 (tr @ [True]) =
                 Inr (a', cs', s', (tr @ [True]) @ tr')"
          and la': "length a' = length points" and lt': "\<forall>x\<in>set a'. x < k"
          and lc': "length cs' = k"
          and t1: "length tr' \<le> m"
          and t2: "\<forall>j<length tr'. \<not> tr' ! j \<longrightarrow> Suc j = length tr'"
          and t3: "length tr' < m \<longrightarrow> tr' \<noteq> [] \<and> \<not> last tr'"
          and nn': "if tr' = [] then cs' = cs1
                    else (\<forall>c\<in>set cs'. has_nan ops c \<longrightarrow> c \<in> set points)"
          by blast
        have r: "kmeans_loop ops rs points k (Suc m) a cs s tr = Inr (a', cs', s', tr @ (True # tr'))"
          using st True lp by simp
        have u1: "length (True # tr') \<le> Suc m" using t1 by simp
        have u2: "\<forall>j<length (True # tr'). \<not> (True # tr') ! j \<longrightarrow> Suc j = length (True # tr')"
          using t2 by (auto simp: nth_Cons split: nat.splits)
        have u3: "length (True # tr') < Suc m \<longrightarrow> True # tr' \<noteq> [] \<and> \<not> last (True # tr')"
          using t3 by auto
        have u4: "if True # tr' = [] then cs' = cs
                  else (\<forall>c\<in>set cs'. has_nan ops c \<longrightarrow> c \<in> set points)"
          using nn' nn1 by (cases "tr' = []") auto
        from r la' lt' lc' u1 u2 u3 u4 show ?thesis by blast
      qed
    qed
  qed
qed

lemma kmeans_run_result:
  assumes pre: "engine_pre points k"
  shows "kmeans_run ops rs points k max_iter s = Inl OverflowError \<or>
     (\<exists>a cs s' tr. kmeans_run ops rs points k max_iter s = Inr (a, cs, s', tr) \<and>
       length a = length points \<and> (\<forall>x\<in>set a. x < k) \<and> length cs = k \<and>
       length tr \<le> nat max_iter \<and> (\<forall>j<length tr. \<not> tr ! j \<longrightarrow> Suc j = length tr) \<and>
       (length tr < nat max_iter \<longrightarrow> tr \<noteq> [] \<and> \<not> last tr) \<and>
       (\<forall>c\<in>set cs. has_nan ops c \<longrightarrow> c \<in> set points))"
proof -
  have kn: "k \<le> length points" using pre by (simp add: engine_pre_def)
  from init_centroids_ok[OF kn, of rs s] obtain cs0 s0 where
    ic: "init_centroids rs points k s = Inr (cs0, s0)" and lc0: "length cs0 = k"
    and sub: "set cs0 \<subseteq> set points" by blast
  have la: "length (replicate (length points) (0::nat)) = length points" by simp
  have lt: "\<forall>x\<in>set (replicate (length points) (0::nat)). x < k"
    using pre by (auto simp: engine_pre_def)
  from kmeans_loop_result[OF pre la lc0 lt, of ops rs "nat max_iter" s0 "[]"] show ?thesis
  proof
    assume "kmeans_loop ops rs points k (nat max_iter) (replicate (length points) 0) cs0 s0 [] =
              Inl OverflowError"
    then show ?thesis using ic by (simp add: kmeans_run_def)
  next
    assume "\<exists>a' cs' s' tr'.
       kmeans_loop ops rs points k (nat max_iter) (replicate (length points) 0) cs0 s0 [] =
         Inr (a', cs', s', [] @ tr') \<and>
       length a' = length points \<and> (\<forall>x\<in>set a'. x < k) \<and> length cs' = k \<and>
       length tr' \<le> nat max_iter \<and> (\<forall>j<length tr'. \<not> tr' ! j \<longrightarrow> Suc j = length tr') \<and>
       (length tr' < nat max_iter \<longrightarrow> tr' \<noteq> [] \<and> \<not> last tr') \<and>
       (if tr' = [] then cs' = cs0 else (\<forall>c\<in>set cs'. has_nan ops c \<longrightarrow> c \<in> set points))"
    then obtain a' cs' s' tr' where
      lp: "kmeans_loop ops rs points k (nat max_iter) (replicate (length points) 0) cs0 s0 [] =
             Inr (a', cs', s', tr')"
      and r: "length a' = length points" "\<forall>x\<in>set a'. x < k" "length cs' = k"
        "length tr' \<le> nat max_iter" "\<forall>j<length tr'. \<not> tr' ! j \<longrightarrow> Suc j = length tr'"
        "length tr' < nat max_iter \<longrightarrow> tr' \<noteq> [] \<and> \<not> last tr'"
      and nn: "if tr' = [] then cs' = cs0
               else (\<forall>c\<in>set cs'. has_nan ops c \<longrightarrow> c \<in> set points)"
      by auto
    have "\<forall>c\<in>set cs'. has_nan ops c \<longrightarrow> c \<in> set points"
      using nn sub by (cases "tr' = []") auto
    moreover have "kmeans_run ops rs points k max_iter s = Inr (a', cs', s', tr')"
      using ic lp by (simp add: kmeans_run_def)
    ultimately show ?thesis using r by blast
  qed
qed

section \<open>The index the assign step chooses\<close>

lemma nearest_scan_spec:
  assumes kl: "k \<le> length cents" and ord: "lt_order ops"
  shows "bc < i \<Longrightarrow> i \<le> k \<Longrightarrow> euclidean2 ops p (cents ! bc) = Inr bd \<Longrightarrow>
     \<forall>c<i. \<exists>d. euclidean2 ops p (cents ! c) = Inr d \<and> \<not> f_lt ops d bd \<Longrightarrow>
     \<forall>c<bc. euclidean2 ops p (cents ! c) \<noteq> Inr bd \<Longrightarrow>
     nearest_scan ops p cents [i..<k] bc bd = Inl OverflowError \<or>
     (\<exists>b db. nearest_scan ops p cents [i..<k] bc bd = Inr b \<and> b < k \<and>
         euclidean2 ops p (cents ! b) = Inr db \<and>
         (\<forall>c<k. \<exists>d. euclidean2 ops p (cents ! c) = Inr d \<and> \<not> f_lt ops d db) \<and>
         (\<forall>c<b. euclidean2 ops p (cents ! c) \<noteq> Inr db))"
proof (induction "k - i" arbitrary: i bc bd)
  case 0
  then have "i = k" by simp
  with 0 show ?case by auto
next
  case (Suc n)
  have irr: "\<And>x. \<not> f_lt ops x x" and tr: "\<And>x y z. f_lt ops x y \<Longrightarrow> f_lt ops y z \<Longrightarrow> f_lt ops x z"
    using ord unfolding lt_order_def by blast+
  from Suc.hyps(2) have ik: "i < k" by simp
  have up: "[i..<k] = i # [Suc i..<k]" using ik by (simp add: upt_conv_Cons)
  have g: "py_get cents i = Inr (cents ! i)" using ik kl by (simp add: py_get_def)
  have n: "n = k - Suc i" using Suc.hyps(2) by simp
  from euclidean2_cases[of ops p "cents ! i"] show ?case
  proof
    assume "euclidean2 ops p (cents ! i) = Inl OverflowError"
    then show ?thesis by (simp add: up g)
  next
    assume "\<exists>d. euclidean2 ops p (cents ! i) = Inr d"
    then obtain d where d: "euclidean2 ops p (cents ! i) = Inr d" ..
    show ?thesis
    proof (cases "f_lt ops d bd")
      case True
      have a1: "\<forall>c<Suc i. \<exists>d'. euclidean2 ops p (cents ! c) = Inr d' \<and> \<not> f_lt ops d' d"
      proof (intro allI impI)
        fix c assume c: "c < Suc i"
        show "\<exists>d'. euclidean2 ops p (cents ! c) = Inr d' \<and> \<not> f_lt ops d' d"
        proof (cases "c = i")
          case True
          then show ?thesis using d irr by simp
        next
          case False
          with c have "c < i" by simp
          with Suc.prems(4) obtain d' where
            d': "euclidean2 ops p (cents ! c) = Inr d'" "\<not> f_lt ops d' bd" by blast
          have "\<not> f_lt ops d' d" using tr[OF _ True] d'(2) by blast
          with d'(1) show ?thesis by simp
        qed
      qed
      have a2: "\<forall>c<i. euclidean2 ops p (cents ! c) \<noteq> Inr d"
      proof (intro allI impI)
        fix c assume "c < i"
        with Suc.prems(4) obtain d' where
          d': "euclidean2 ops p (cents ! c) = Inr d'" "\<not> f_lt ops d' bd" by blast
        then show "euclidean2 ops p (cents ! c) \<noteq> Inr d" using True by auto
      qed
      have i1: "i < Suc i" by simp
      have i2: "Suc i \<le> k" using ik by simp
      from Suc.hyps(1)[OF n i1 i2 d a1 a2] True d g show ?thesis by (simp add: up)
    next
      case False
      have a1: "\<forall>c<Suc i. \<exists>d'. euclidean2 ops p (cents ! c) = Inr d' \<and> \<not> f_lt ops d' bd"
        using Suc.prems(4) False d by (auto simp: less_Suc_eq)
      have i1: "bc < Suc i" using Suc.prems(1) by simp
      have i2: "Suc i \<le> k" using ik by simp
      from Suc.hyps(1)[OF n i1 i2 Suc.prems(3) a1 Suc.prems(5)] False d g
      show ?thesis by (simp add: up)
    qed
  qed
qed

lemma nearest_spec:
  assumes k: "1 \<le> k" "k \<le> length cents" and ord: "lt_order ops"
    and n: "nearest ops p cents k = Inr b"
  shows "b < k \<and>
         (\<exists>db. euclidean2 ops p (cents ! b) = Inr db \<and>
            (\<forall>c<k. \<exists>d. euclidean2 ops p (cents ! c) = Inr d \<and> \<not> f_lt ops d db) \<and>
            (\<forall>c<b. euclidean2 ops p (cents ! c) \<noteq> Inr db))"
proof -
  have l0: "0 < length cents" using k by linarith
  from n obtain d0 where d0: "euclidean2 ops p (cents ! 0) = Inr d0"
    using l0 by (auto simp: nearest_def py_get_def split: sum.splits)
  have sc: "nearest_scan ops p cents [1..<k] 0 d0 = Inr b"
    using n d0 l0 by (simp add: nearest_def py_get_def)
  have irr: "\<And>x. \<not> f_lt ops x x" using ord unfolding lt_order_def by blast
  have a: "\<forall>c<1. \<exists>d. euclidean2 ops p (cents ! c) = Inr d \<and> \<not> f_lt ops d d0"
    using d0 irr by simp
  have b: "\<forall>c<0. euclidean2 ops p (cents ! c) \<noteq> Inr d0" by simp
  have z: "(0::nat) < 1" by simp
  from nearest_scan_spec[OF k(2) ord z k(1) d0 a b] sc show ?thesis by auto
qed

section \<open>Rounding to binary64\<close>

lemma round_even_of_int: "round_even (of_int n) = n"
  by (simp add: round_even_def)

lemma rnd64_zero [simp]: "rnd64 0 = 0"
  by (simp add: rnd64_def)

lemma ulp_exp_le:
  assumes m: "m \<noteq> 0" "\<bar>m\<bar> < 2 ^ 53" and k: "- 1074 \<le> k"
  shows "ulp_exp (of_int m * 2 powr of_int k) \<le> k"
proof -
  let ?x = "of_int m * 2 powr of_int k :: real"
  have am: "0 < \<bar>real_of_int m\<bar>" using m by simp
  have "\<bar>?x\<bar> = \<bar>real_of_int m\<bar> * 2 powr of_int k" by (simp add: abs_mult)
  then have "log 2 \<bar>?x\<bar> = log 2 \<bar>real_of_int m\<bar> + of_int k"
    using am by (simp add: log_mult)
  moreover have "log 2 \<bar>real_of_int m\<bar> < 53"
  proof -
    have "\<bar>real_of_int m\<bar> < 2 ^ 53"
      using m(2) by (metis of_int_abs of_int_less_numeral_power_cancel_iff)
    then have "\<bar>real_of_int m\<bar> < 2 powr 53" by simp
    then show ?thesis using am by (simp add: log_less_iff)
  qed
  ultimately have "log 2 \<bar>?x\<bar> < of_int (53 + k)" by simp
  then have "\<lfloor>log 2 \<bar>?x\<bar>\<rfloor> < 53 + k" by (simp add: floor_less_iff)
  then show ?thesis using k by (simp add: ulp_exp_def)
qed

lemma rnd64_fix:
  assumes m: "\<bar>m\<bar> < 2 ^ 53" and k: "- 1074 \<le> k"
  shows "rnd64 (of_int m * 2 powr of_int k) = of_int m * 2 powr of_int k"
proof (cases "m = 0")
  case True
  then show ?thesis by (simp add: rnd64_def)
next
  case False
  let ?x = "of_int m * 2 powr of_int k :: real"
  let ?u = "ulp_exp ?x"
  have le: "?u \<le> k" by (rule ulp_exp_le[OF False m k])
  have x0: "?x \<noteq> 0" using False by simp
  have "2 powr of_int k / 2 powr of_int ?u = (2::real) powr of_int (k - ?u)"
    by (simp add: powr_diff)
  also have "\<dots> = 2 powr real (nat (k - ?u))" using le by simp
  also have "\<dots> = 2 ^ nat (k - ?u)" by (rule powr_realpow) simp
  finally have e: "2 powr of_int k / 2 powr of_int ?u = (2::real) ^ nat (k - ?u)" .
  have "?x / 2 powr of_int ?u = of_int m * (2 powr of_int k / 2 powr of_int ?u)" by simp
  also have "\<dots> = of_int m * 2 ^ nat (k - ?u)" unfolding e ..
  finally have q: "?x / 2 powr of_int ?u = of_int (m * 2 ^ nat (k - ?u))" by simp
  have "rnd64 ?x = of_int (round_even (?x / 2 powr of_int ?u)) * 2 powr of_int ?u"
    using x0 by (simp add: rnd64_def)
  also have "\<dots> = of_int (m * 2 ^ nat (k - ?u)) * 2 powr of_int ?u"
    unfolding q round_even_of_int ..
  also have "\<dots> = ?x / 2 powr of_int ?u * 2 powr of_int ?u" unfolding q ..
  also have "\<dots> = ?x" by simp
  finally show ?thesis .
qed

lemma rnd64_int: "\<bar>m\<bar> < 2 ^ 53 \<Longrightarrow> rnd64 (of_int m) = of_int m"
  using rnd64_fix[of m 0] by simp

lemma rnd64_pow2 [simp]: "rnd64 (2 ^ n) = 2 ^ n"
proof -
  have "rnd64 (of_int 1 * 2 powr of_int (int n)) = of_int 1 * 2 powr of_int (int n)"
    by (rule rnd64_fix) simp_all
  then show ?thesis by (simp add: powr_realpow)
qed

lemma rnd64_neg_pow2 [simp]: "rnd64 (- (2 ^ n)) = - (2 ^ n)"
proof -
  have "rnd64 (of_int (- 1) * 2 powr of_int (int n)) = of_int (- 1) * 2 powr of_int (int n)"
    by (rule rnd64_fix) simp_all
  then show ?thesis by (simp add: powr_realpow)
qed

lemma rnd64_inv_pow2: "n \<le> 1074 \<Longrightarrow> rnd64 (1 / 2 ^ n) = 1 / 2 ^ n"
proof -
  assume n: "n \<le> 1074"
  have "rnd64 (of_int 1 * 2 powr of_int (- int n)) = of_int 1 * 2 powr of_int (- int n)"
    by (rule rnd64_fix) (use n in simp_all)
  moreover have "(2::real) powr of_int (- int n) = 1 / 2 ^ n"
    by (simp add: powr_minus_divide powr_realpow)
  ultimately show ?thesis by simp
qed

lemma rnd64_numeral [simp]: "numeral n < (2::int) ^ 53 \<Longrightarrow> rnd64 (numeral n) = numeral n"
  using rnd64_int[of "numeral n"] by simp

lemma rnd64_neg_numeral [simp]:
  "numeral n < (2::int) ^ 53 \<Longrightarrow> rnd64 (- numeral n) = - numeral n"
  using rnd64_int[of "- numeral n"] by simp

lemma rnd64_one [simp]: "rnd64 1 = 1"
  using rnd64_int[of 1] by simp

lemma rnd64_tiny:
  assumes "0 < x" "x < 2 powr (- 1075)"
  shows "rnd64 x = 0"
proof -
  have "log 2 x < - 1075" using assms by (simp add: log_less_iff)
  then have "log 2 \<bar>x\<bar> < - 1075" using assms by simp
  then have "\<lfloor>log 2 \<bar>x\<bar>\<rfloor> < - 1075" by (simp add: floor_less_iff)
  then have u: "ulp_exp x = - 1074" by (simp add: ulp_exp_def)
  define y where "y = x / 2 powr (- 1074)"
  have "y < 2 powr (- 1075) / 2 powr (- 1074)"
    unfolding y_def using assms by (intro divide_strict_right_mono) simp_all
  also have "\<dots> = 2 powr (- 1)" by (simp add: powr_diff [symmetric])
  also have "\<dots> = 1 / 2" by (simp add: powr_minus_divide)
  finally have lt: "y < 1 / 2" .
  have ge: "0 \<le> y" unfolding y_def using assms by simp
  have fl: "\<lfloor>y\<rfloor> = 0" using lt ge by (intro floor_unique) simp_all
  have "round_even y = 0" using lt by (simp add: round_even_def fl)
  then show ?thesis using assms u by (simp add: rnd64_def y_def)
qed

lemma round64_fix: "rnd64 r = r \<Longrightarrow> \<bar>r\<bar> < 2 ^ 1024 \<Longrightarrow> round64 r = Num r"
  by (auto simp: round64_def Let_def)

lemma round64_zero [simp]: "round64 0 = Num 0"
  by (rule round64_fix) simp_all

lemma round64_one [simp]: "round64 1 = Num 1"
  by (rule round64_fix) simp_all

lemma small_real:
  assumes "numeral n < (2::int) ^ 53"
  shows "(numeral n :: real) < 2 ^ 1024"
proof -
  have "(of_int (numeral n) :: real) < of_int (2 ^ 53)" using assms by (simp only: of_int_less_iff)
  then have "(numeral n :: real) < 2 ^ 53" by simp
  also have "(2::real) ^ 53 < 2 ^ 1024" by (rule power_strict_increasing) simp_all
  finally show ?thesis .
qed

lemma round64_numeral [simp]:
  "numeral n < (2::int) ^ 53 \<Longrightarrow> round64 (numeral n) = Num (numeral n)"
  using small_real[of n] by (intro round64_fix) simp_all

lemma round64_neg_numeral [simp]:
  "numeral n < (2::int) ^ 53 \<Longrightarrow> round64 (- numeral n) = Num (- numeral n)"
  using small_real[of n] by (intro round64_fix) simp_all

lemma py64_fields [simp]:
  "f_zero py64 = Num 0" "f_nan py64 = NaN" "f_add py64 = fadd" "f_sub py64 = fsub"
  "f_sq py64 = fsq" "f_div_count py64 = fdiv_count" "f_lt py64 = flt" "f_isnan py64 = isnan"
  by (simp_all add: py64_def)

lemma counter_src_fields [simp]:
  "draw counter_src n s = (s, Suc s)" "pick counter_src n k s = ((\<lambda>i. s + i), s + k)"
  by (simp_all add: counter_src_def)

lemma flt_irrefl: "\<not> flt x x"
  by (cases x) auto

lemma flt_trans: "flt x y \<Longrightarrow> flt y z \<Longrightarrow> flt x z"
  by (cases x; cases y; cases z) auto

lemma lt_order_py64: "lt_order py64"
  unfolding lt_order_def using flt_irrefl flt_trans by (simp add: py64_def)

lemma round_even_le: 
  assumes "r \<le> of_int N" shows "round_even r \<le> N"
proof -
  have f: "of_int \<lfloor>r\<rfloor> \<le> r" by simp
  then have fN: "\<lfloor>r\<rfloor> \<le> N" using assms by linarith
  show ?thesis
  proof (cases "r - of_int \<lfloor>r\<rfloor> < 1 / 2")
    case True
    then show ?thesis using fN by (simp add: round_even_def Let_def)
  next
    case False
    then have "of_int \<lfloor>r\<rfloor> < r" by linarith
    then have "of_int \<lfloor>r\<rfloor> < (of_int N :: real)" using assms by linarith
    then have "\<lfloor>r\<rfloor> < N" by (simp only: of_int_less_iff)
    then show ?thesis by (simp add: round_even_def Let_def)
  qed
qed

lemma round_even_ge:
  assumes "of_int N \<le> r" shows "N \<le> round_even r"
proof -
  have "N \<le> \<lfloor>r\<rfloor>" using assms by (simp add: le_floor_iff)
  then show ?thesis by (simp add: round_even_def Let_def)
qed

lemma round_even_gt:
  assumes "of_int N + 1 / 2 < r" shows "N + 1 \<le> round_even r"
proof -
  have N: "N \<le> \<lfloor>r\<rfloor>" using assms by (simp add: le_floor_iff)
  show ?thesis
  proof (cases "N + 1 \<le> \<lfloor>r\<rfloor>")
    case True
    then show ?thesis by (simp add: round_even_def Let_def)
  next
    case False
    with N have e: "\<lfloor>r\<rfloor> = N" by simp
    then have "1 / 2 < r - of_int \<lfloor>r\<rfloor>" using assms by simp
    then show ?thesis using e by (simp add: round_even_def Let_def)
  qed
qed

lemma rnd64_expand:
  "x \<noteq> 0 \<Longrightarrow>
   rnd64 x = of_int (round_even (x / 2 powr of_int (ulp_exp x))) * 2 powr of_int (ulp_exp x)"
  by (simp add: rnd64_def)

lemma int_on_grid:
  assumes "e \<le> 0"
  shows "real_of_int j / 2 powr of_int e = of_int (j * 2 ^ nat (- e))"
proof -
  have "(2::real) powr of_int e = 1 / 2 powr of_int (- e)" by (simp add: powr_minus_divide)
  also have "(2::real) powr of_int (- e) = 2 powr real (nat (- e))" using assms by simp
  also have "\<dots> = 2 ^ nat (- e)" by (rule powr_realpow) simp
  finally have "(2::real) powr of_int e = 1 / 2 ^ nat (- e)" .
  then show ?thesis by simp
qed

lemma rnd64_le_int:
  assumes x: "x \<noteq> 0" and e: "ulp_exp x \<le> 0" and le: "x \<le> of_int j"
  shows "rnd64 x \<le> of_int j"
proof -
  let ?u = "2 powr of_int (ulp_exp x) :: real"
  have u: "0 < ?u" by simp
  have "x / ?u \<le> of_int j / ?u" using le u by (simp add: divide_right_mono)
  then have "x / ?u \<le> of_int (j * 2 ^ nat (- ulp_exp x))" by (simp only: int_on_grid[OF e])
  then have "round_even (x / ?u) \<le> j * 2 ^ nat (- ulp_exp x)" by (rule round_even_le)
  then have "real_of_int (round_even (x / ?u)) \<le> of_int (j * 2 ^ nat (- ulp_exp x))"
    by (simp only: of_int_le_iff)
  then have "real_of_int (round_even (x / ?u)) \<le> of_int j / ?u" by (simp only: int_on_grid[OF e])
  then have "real_of_int (round_even (x / ?u)) * ?u \<le> of_int j"
    using u by (simp add: pos_le_divide_eq)
  then show ?thesis by (simp only: rnd64_expand[OF x])
qed

lemma rnd64_ge_int:
  assumes x: "x \<noteq> 0" and e: "ulp_exp x \<le> 0" and le: "of_int j \<le> x"
  shows "of_int j \<le> rnd64 x"
proof -
  let ?u = "2 powr of_int (ulp_exp x) :: real"
  have u: "0 < ?u" by simp
  have "of_int j / ?u \<le> x / ?u" using le u by (simp add: divide_right_mono)
  then have "of_int (j * 2 ^ nat (- ulp_exp x)) \<le> x / ?u" by (simp only: int_on_grid[OF e])
  then have "j * 2 ^ nat (- ulp_exp x) \<le> round_even (x / ?u)" by (rule round_even_ge)
  then have "real_of_int (j * 2 ^ nat (- ulp_exp x)) \<le> of_int (round_even (x / ?u))"
    by (simp only: of_int_le_iff)
  then have "of_int j / ?u \<le> real_of_int (round_even (x / ?u))" by (simp only: int_on_grid[OF e])
  then have "of_int j \<le> real_of_int (round_even (x / ?u)) * ?u"
    using u by (simp add: pos_divide_le_eq)
  then show ?thesis by (simp only: rnd64_expand[OF x])
qed

lemma rnd64_gt_int:
  assumes x: "x \<noteq> 0" and e: "ulp_exp x \<le> 0"
    and lt: "of_int j + 2 powr of_int (ulp_exp x) / 2 < x"
  shows "of_int j < rnd64 x"
proof -
  let ?u = "2 powr of_int (ulp_exp x) :: real"
  have u: "0 < ?u" by simp
  have "(of_int j + ?u / 2) / ?u < x / ?u" using lt u by (simp add: divide_strict_right_mono)
  moreover have "(of_int j + ?u / 2) / ?u = of_int j / ?u + 1 / 2"
    using u by (simp add: add_divide_distrib)
  ultimately have "of_int (j * 2 ^ nat (- ulp_exp x)) + 1 / 2 < x / ?u"
    by (simp only: int_on_grid[OF e])
  then have "j * 2 ^ nat (- ulp_exp x) + 1 \<le> round_even (x / ?u)" by (rule round_even_gt)
  then have "real_of_int (j * 2 ^ nat (- ulp_exp x) + 1) \<le> of_int (round_even (x / ?u))"
    by (simp only: of_int_le_iff)
  then have "real_of_int (j * 2 ^ nat (- ulp_exp x)) + 1 \<le> of_int (round_even (x / ?u))"
    by simp
  then have "of_int j / ?u + 1 \<le> real_of_int (round_even (x / ?u))"
    by (simp only: int_on_grid[OF e])
  then have "of_int j / ?u < real_of_int (round_even (x / ?u))" by linarith
  then have "of_int j < real_of_int (round_even (x / ?u)) * ?u"
    using u by (simp add: pos_divide_less_eq)
  then show ?thesis by (simp only: rnd64_expand[OF x])
qed

section \<open>The ceiling of a rounded quotient\<close>

lemma true_div_ceiling:
  assumes n: "0 < n" "n < 2 ^ 53" and m: "1 \<le> m"
  shows "\<exists>q. true_div n m = Some q \<and>
           max 1 (min \<lceil>q\<rceil> n) = max 1 (min \<lceil>real_of_int n / real_of_int m\<rceil> n)"
proof -
  define x where "x = real_of_int n / real_of_int m"
  define j where "j = \<lceil>x\<rceil>"
  have mr: "1 \<le> real_of_int m" using m by simp
  have nr: "0 < real_of_int n" using n by simp
  have x0: "0 < x" unfolding x_def using nr mr by simp
  have xn: "x \<le> real_of_int n"
    unfolding x_def using nr mr by (simp add: field_simps mult_le_cancel_left1)
  have n53: "real_of_int n < 2 ^ 53"
    using n(2) by (metis of_int_less_numeral_power_cancel_iff)
  have x53: "x < 2 powr 53" using xn n53 by simp
  have lg: "log 2 x < 53" using x0 x53 by (simp add: log_less_iff)
  have e: "ulp_exp x \<le> 0"
  proof -
    have "\<lfloor>log 2 \<bar>x\<bar>\<rfloor> < 53" using lg x0 by (simp add: floor_less_iff)
    then show ?thesis by (simp add: ulp_exp_def)
  qed
  have xne: "x \<noteq> 0" using x0 by simp
  have j1: "1 \<le> j" unfolding j_def using x0 by (simp add: less_ceiling_iff Suc_le_eq)
  have xj: "x \<le> of_int j" unfolding j_def by simp
  have jx: "of_int j - 1 < x" unfolding j_def by linarith
  have jn: "j \<le> n" unfolding j_def using xn by (simp add: ceiling_le_iff)
  have up: "rnd64 x \<le> of_int j" by (rule rnd64_le_int[OF xne e xj])
  have lo: "0 \<le> rnd64 x" using rnd64_ge_int[OF xne e, of 0] x0 by simp
  have "rnd64 x < 2 ^ 1024"
  proof -
    have "real_of_int j \<le> real_of_int n" using jn by (simp only: of_int_le_iff)
    then have "rnd64 x \<le> real_of_int n" using up by linarith
    also have "\<dots> < 2 ^ 53" by (rule n53)
    also have "(2::real) ^ 53 < 2 ^ 1024" by (rule power_strict_increasing) simp_all
    finally show ?thesis .
  qed
  then have td: "true_div n m = Some (rnd64 x)"
    using lo by (simp add: true_div_def Let_def x_def)
  have "max 1 (min \<lceil>rnd64 x\<rceil> n) = max 1 (min j n)"
  proof (cases "j = 1")
    case True
    define c where "c = \<lceil>rnd64 x\<rceil>"
    have "c \<le> 1" unfolding c_def using up True by (simp add: ceiling_le_iff)
    then have "max 1 (min c n) = 1" by (simp add: max_def min_def)
    then show ?thesis using True n(1) by (simp add: c_def)
  next
    case False
    with j1 have j2: "2 \<le> j" by simp
    then have "real_of_int 2 \<le> real_of_int j" by (simp only: of_int_le_iff)
    then have x1: "1 < x" using jx by simp
    define E where "E = \<lfloor>log 2 x\<rfloor>"
    have E0: "0 \<le> E" unfolding E_def using x1 by simp
    have "ulp_exp x = max E (- 1022) - 52" using x0 by (simp add: ulp_exp_def E_def)
    then have ue: "ulp_exp x = E - 52" using E0 by simp
    have "real_of_int E \<le> log 2 x" unfolding E_def by simp
    then have pE: "2 powr real_of_int E \<le> x" using x0 by (simp add: le_log_iff)
    have "2 powr of_int (ulp_exp x) / 2 = 2 powr real_of_int E / 2 ^ 53"
    proof -
      have "(2::real) powr of_int (E - 52) = 2 powr real_of_int E / 2 powr 52"
        by (simp add: powr_diff)
      then show ?thesis by (simp add: ue)
    qed
    also have "\<dots> \<le> x / 2 ^ 53" using pE by (simp add: divide_right_mono)
    also have "\<dots> = real_of_int n / 2 ^ 53 / real_of_int m" by (simp add: x_def)
    also have "\<dots> < 1 / real_of_int m"
      using n53 mr by (intro divide_strict_right_mono) simp_all
    finally have half: "2 powr of_int (ulp_exp x) / 2 < 1 / real_of_int m" .
    have "real_of_int (j - 1) * real_of_int m < real_of_int n"
      using jx mr by (simp add: x_def pos_less_divide_eq)
    then have "real_of_int ((j - 1) * m) < real_of_int n" by simp
    then have "(j - 1) * m < n" by (simp only: of_int_less_iff)
    then have "(j - 1) * m + 1 \<le> n" by simp
    then have "real_of_int ((j - 1) * m + 1) \<le> real_of_int n" by (simp only: of_int_le_iff)
    then have "real_of_int (j - 1) * real_of_int m + 1 \<le> real_of_int n" by simp
    then have "(real_of_int (j - 1) * real_of_int m + 1) / real_of_int m \<le> x"
      unfolding x_def using mr by (simp add: divide_right_mono)
    moreover have "(real_of_int (j - 1) * real_of_int m + 1) / real_of_int m =
                   real_of_int (j - 1) + 1 / real_of_int m"
      using mr by (simp add: add_divide_distrib)
    ultimately have "real_of_int (j - 1) + 1 / real_of_int m \<le> x" by simp
    with half have "of_int (j - 1) + 2 powr of_int (ulp_exp x) / 2 < x" by linarith
    then have "of_int (j - 1) < rnd64 x" by (rule rnd64_gt_int[OF xne e])
    then have "of_int j - 1 < rnd64 x" by simp
    then have "\<lceil>rnd64 x\<rceil> = j" using up by (intro ceiling_unique)
    then show ?thesis by simp
  qed
  with td show ?thesis by (simp add: j_def x_def)
qed

lemma choose_k_small:
  assumes "0 < n" "n < 2 ^ 53"
  shows "choose_k n target_capacity =
           Inr (max 1 (min \<lceil>real_of_int n / real_of_int (max 1 target_capacity)\<rceil> n))"
proof -
  have m: "1 \<le> max 1 target_capacity" by simp
  from true_div_ceiling[OF assms m] obtain q where
    "true_div n (max 1 target_capacity) = Some q"
    "max 1 (min \<lceil>q\<rceil> n) =
       max 1 (min \<lceil>real_of_int n / real_of_int (max 1 target_capacity)\<rceil> n)"
    by blast
  then show ?thesis using assms by (simp add: choose_k_def)
qed

lemma round64_neg_one [simp]: "round64 (- 1) = Num (- 1)"
proof (rule round64_fix)
  show "rnd64 (- 1) = - 1" using rnd64_neg_pow2[of 0] by simp
  show "\<bar>- 1 :: real\<bar> < 2 ^ 1024" by simp
qed

lemma choose_k_2_12: "choose_k 2 12 = Inr 1"
  using choose_k_small[of 2 12] by (simp add: ceiling_def)

lemma choose_k_3_12: "choose_k 3 12 = Inr 1"
  using choose_k_small[of 3 12] by (simp add: ceiling_def)

lemma choose_k_2_1: "choose_k 2 1 = Inr 2"
  using choose_k_small[of 2 1] by simp

section \<open>Runs that the assign step decides\<close>

lemma assign_loop_total:
  "length a = i + length ps \<Longrightarrow> \<forall>p\<in>set ps. nearest ops p centroids k = Inr (f p) \<Longrightarrow>
   assign_loop ops centroids k i ps a ch =
     Inr (take i a @ map f ps, ch \<or> drop i a \<noteq> map f ps)"
proof (induction ps arbitrary: i a ch)
  case Nil
  then show ?case by simp
next
  case (Cons p ps)
  have n: "nearest ops p centroids k = Inr (f p)" using Cons.prems(2) by simp
  have r: "\<forall>p\<in>set ps. nearest ops p centroids k = Inr (f p)" using Cons.prems(2) by simp
  have i: "i < length a" using Cons.prems(1) by simp
  have dr: "drop i a = a ! i # drop (Suc i) a" using i by (simp add: Cons_nth_drop_Suc)
  show ?case
  proof (cases "a ! i = f p")
    case True
    have l: "length a = Suc i + length ps" using Cons.prems(1) by simp
    from Cons.IH[OF l r, of ch] show ?thesis using True n i dr
      by (simp add: py_get_def take_Suc_conv_app_nth)
  next
    case False
    have l: "length (a[i := f p]) = Suc i + length ps" using Cons.prems(1) by simp
    from Cons.IH[OF l r, of True] show ?thesis using False n i dr
      by (simp add: py_get_def take_Suc_conv_app_nth)
  qed
qed

lemma kmeans_step_exact:
  assumes la: "length a = length points"
    and nr: "\<forall>p\<in>set points. nearest ops p cs k = Inr (f p)"
    and lt: "\<forall>p\<in>set points. f p < k"
    and nn: "\<forall>c\<in>set (recomputed ops points (map f points) k). \<not> has_nan ops c"
  shows "kmeans_step ops rs points k a cs s =
           Inr (map f points, recomputed ops points (map f points) k, s, a \<noteq> map f points)"
proof -
  have "length a = 0 + length points" using la by simp
  from assign_loop_total[OF this nr, of False]
  have as: "assign_loop ops cs k 0 points a False = Inr (map f points, a \<noteq> map f points)"
    by simp
  have "\<forall>x\<in>set (map f points). x < k" using lt by simp
  then have rc: "recompute_centroids ops points (map f points) k =
      Inr (recomputed ops points (map f points) k)"
    by (rule recompute_centroids_result)
  have rs: "reseed ops rs points (recomputed ops points (map f points) k) s (a \<noteq> map f points) =
      Inr (recomputed ops points (map f points) k, s, a \<noteq> map f points)"
    by (rule reseed_no_nan[OF nn])
  show ?thesis by (simp add: kmeans_step_def as rc rs)
qed

lemma nearest_scan_total:
  "\<forall>c\<in>set cs. c < length cents \<and> (\<exists>d. euclidean2 ops p (cents ! c) = Inr d) \<Longrightarrow>
   \<exists>b. nearest_scan ops p cents cs bc bd = Inr b"
proof (induction cs arbitrary: bc bd)
  case Nil
  then show ?case by simp
next
  case (Cons c cs)
  from Cons.prems obtain d where c: "c < length cents" and d: "euclidean2 ops p (cents ! c) = Inr d"
    by auto
  have r: "\<forall>c\<in>set cs. c < length cents \<and> (\<exists>d. euclidean2 ops p (cents ! c) = Inr d)"
    using Cons.prems by simp
  show ?case
  proof (cases "f_lt ops d bd")
    case True
    with Cons.IH[OF r, of c d] c d show ?thesis by (simp add: py_get_def)
  next
    case False
    with Cons.IH[OF r, of bc bd] c d show ?thesis by (simp add: py_get_def)
  qed
qed

lemma nearest_total:
  assumes "1 \<le> k" "k \<le> length cents" "\<forall>c<k. \<exists>d. euclidean2 ops p (cents ! c) = Inr d"
  shows "\<exists>b. nearest ops p cents k = Inr b"
proof -
  from assms obtain d0 where d0: "euclidean2 ops p (cents ! 0) = Inr d0" by auto
  have "\<forall>c\<in>set [1..<k]. c < length cents \<and> (\<exists>d. euclidean2 ops p (cents ! c) = Inr d)"
    using assms by auto
  from nearest_scan_total[OF this, of 0 d0] obtain b where
    "nearest_scan ops p cents [1..<k] 0 d0 = Inr b" by blast
  moreover have "0 < length cents" using assms by linarith
  ultimately show ?thesis using d0 by (simp add: nearest_def py_get_def)
qed

section \<open>One cluster for each point\<close>

lemma nearest_self:
  assumes lt: "lt_order ops" and d: "distinct points" and i: "i < length points"
    and near: "\<forall>p\<in>set points. \<exists>d0. euclidean2 ops p p = Inr d0 \<and>
                 (\<forall>q\<in>set points. q \<noteq> p \<longrightarrow> (\<exists>d. euclidean2 ops p q = Inr d \<and> f_lt ops d0 d))"
  shows "nearest ops (points ! i) points (length points) = Inr i"
proof -
  let ?p = "points ! i"
  let ?n = "length points"
  have pin: "?p \<in> set points" using i by simp
  from near pin obtain d0 where e0: "euclidean2 ops ?p ?p = Inr d0"
    and oth: "\<forall>q\<in>set points. q \<noteq> ?p \<longrightarrow> (\<exists>d. euclidean2 ops ?p q = Inr d \<and> f_lt ops d0 d)"
    by blast
  have k: "1 \<le> ?n" "?n \<le> length points" using i by simp_all
  have all: "\<forall>c<?n. \<exists>d. euclidean2 ops ?p (points ! c) = Inr d"
  proof (intro allI impI)
    fix c assume c: "c < ?n"
    show "\<exists>d. euclidean2 ops ?p (points ! c) = Inr d"
    proof (cases "points ! c = ?p")
      case True
      then show ?thesis using e0 by simp
    next
      case False
      moreover have "points ! c \<in> set points" using c by simp
      ultimately show ?thesis using oth by blast
    qed
  qed
  from nearest_total[OF k all] obtain b where b: "nearest ops ?p points ?n = Inr b" by blast
  from nearest_spec[OF k lt b] obtain db where
    bk: "b < ?n" and eb: "euclidean2 ops ?p (points ! b) = Inr db"
    and mn: "\<forall>c<?n. \<exists>d. euclidean2 ops ?p (points ! c) = Inr d \<and> \<not> f_lt ops d db"
    by blast
  have "b = i"
  proof (rule ccontr)
    assume ne: "b \<noteq> i"
    have "points ! b \<noteq> ?p" using d bk i ne by (simp add: nth_eq_iff_index_eq)
    moreover have "points ! b \<in> set points" using bk by simp
    ultimately obtain d' where "euclidean2 ops ?p (points ! b) = Inr d'" "f_lt ops d0 d'"
      using oth by blast
    with eb have l: "f_lt ops d0 db" by simp
    from mn i obtain d'' where "euclidean2 ops ?p (points ! i) = Inr d''" "\<not> f_lt ops d'' db"
      by blast
    with e0 have "\<not> f_lt ops d0 db" by simp
    with l show False by simp
  qed
  with b show ?thesis by simp
qed

lemma zip_upt_nth: "zip ps [0..<length ps] = map (\<lambda>i. (ps ! i, i)) [0..<length ps]"
  by (intro nth_equalityI) simp_all

lemma filter_eq_upt: "filter (\<lambda>i. i = c) [0..<n] = (if c < n then [c] else [])"
  by (induction n) auto

lemma cluster_points_identity:
  assumes "c < length ps"
  shows "cluster_points (zip ps [0..<length ps]) c = [ps ! c]"
proof -
  have "filter (\<lambda>pc. snd pc = c) (map (\<lambda>i. (ps ! i, i)) [0..<length ps]) =
        map (\<lambda>i. (ps ! i, i)) (filter (\<lambda>i. i = c) [0..<length ps])"
    by (simp add: filter_map comp_def)
  then show ?thesis using assms
    by (simp add: cluster_points_def zip_upt_nth filter_eq_upt)
qed

lemma recomputed_identity:
  assumes "\<forall>p\<in>set points. f_div_count ops (f_add ops (f_zero ops) (fst p)) 1 = fst p \<and>
                           f_div_count ops (f_add ops (f_zero ops) (snd p)) 1 = snd p"
  shows "recomputed ops points [0..<length points] (length points) = points"
proof (intro nth_equalityI)
  show "length (recomputed ops points [0..<length points] (length points)) = length points"
    by (simp add: length_recomputed)
next
  fix c assume "c < length (recomputed ops points [0..<length points] (length points))"
  then have c: "c < length points" by (simp add: length_recomputed)
  have cp: "cluster_points (zip points [0..<length points]) c = [points ! c]"
    by (rule cluster_points_identity[OF c])
  have "points ! c \<in> set points" using c by simp
  with assms have
    "f_div_count ops (f_add ops (f_zero ops) (fst (points ! c))) 1 = fst (points ! c)"
    "f_div_count ops (f_add ops (f_zero ops) (snd (points ! c))) 1 = snd (points ! c)"
    by simp_all
  then show "recomputed ops points [0..<length points] (length points) ! c = points ! c"
    using c by (simp add: recomputed_def cp point_add_def centroid_of_def)
qed

lemma kmeans_step_identity:
  assumes lt: "lt_order ops" and d: "distinct points"
    and near: "\<forall>p\<in>set points. \<exists>d0. euclidean2 ops p p = Inr d0 \<and>
                 (\<forall>q\<in>set points. q \<noteq> p \<longrightarrow> (\<exists>d. euclidean2 ops p q = Inr d \<and> f_lt ops d0 d))"
    and fin: "\<forall>p\<in>set points. \<not> f_isnan ops (fst p) \<and> \<not> f_isnan ops (snd p)"
    and one: "\<forall>p\<in>set points. f_div_count ops (f_add ops (f_zero ops) (fst p)) 1 = fst p \<and>
                           f_div_count ops (f_add ops (f_zero ops) (snd p)) 1 = snd p"
    and la: "length a = length points"
  shows "kmeans_step ops rs points (length points) a points s =
           Inr ([0..<length points], points, s, a \<noteq> [0..<length points])"
proof -
  let ?n = "length points"
  let ?f = "best_of ops points ?n"
  have nr: "\<forall>p\<in>set points. nearest ops p points ?n = Inr (?f p)"
  proof
    fix p assume "p \<in> set points"
    then obtain i where i: "i < ?n" "p = points ! i" by (auto simp: in_set_conv_nth)
    from nearest_self[OF lt d i(1) near] i(2) show "nearest ops p points ?n = Inr (?f p)"
      by (simp add: best_of_def)
  qed
  have m: "map ?f points = [0..<?n]"
  proof (intro nth_equalityI)
    show "length (map ?f points) = length [0..<?n]" by simp
  next
    fix i assume "i < length (map ?f points)"
    then have i: "i < ?n" by simp
    from nearest_self[OF lt d i near] i show "map ?f points ! i = [0..<?n] ! i"
      by (simp add: best_of_def)
  qed
  have ltk: "\<forall>p\<in>set points. ?f p < ?n"
  proof
    fix p assume "p \<in> set points"
    then obtain i where i: "i < ?n" "p = points ! i" by (auto simp: in_set_conv_nth)
    from nearest_self[OF lt d i(1) near] i show "?f p < ?n" by (simp add: best_of_def)
  qed
  have r: "recomputed ops points (map ?f points) ?n = points"
    unfolding m by (rule recomputed_identity[OF one])
  have nn: "\<forall>c\<in>set (recomputed ops points (map ?f points) ?n). \<not> has_nan ops c"
    unfolding r using fin by (simp add: has_nan_def)
  have r': "recomputed ops points [0..<?n] ?n = points"
    by (rule recomputed_identity[OF one])
  from kmeans_step_exact[OF la nr ltk nn, of rs s] show ?thesis unfolding m r' .
qed

lemma kmeans_run_identity:
  assumes lt: "lt_order ops" and d: "distinct points"
    and near: "\<forall>p\<in>set points. \<exists>d0. euclidean2 ops p p = Inr d0 \<and>
                 (\<forall>q\<in>set points. q \<noteq> p \<longrightarrow> (\<exists>d. euclidean2 ops p q = Inr d \<and> f_lt ops d0 d))"
    and fin: "\<forall>p\<in>set points. \<not> f_isnan ops (fst p) \<and> \<not> f_isnan ops (snd p)"
    and one: "\<forall>p\<in>set points. f_div_count ops (f_add ops (f_zero ops) (fst p)) 1 = fst p \<and>
                           f_div_count ops (f_add ops (f_zero ops) (snd p)) 1 = snd p"
    and mi: "1 \<le> max_iter"
  shows "\<exists>tr. kmeans_run ops rs points (length points) max_iter s =
           Inr ([0..<length points], points, s, tr)"
proof -
  let ?n = "length points"
  let ?z = "replicate ?n (0::nat)"
  have ic: "init_centroids rs points ?n s = Inr (points, s)" by (simp add: init_centroids_def)
  obtain m where m: "nat max_iter = Suc m" using mi by (cases "nat max_iter") auto
  have la: "length ?z = ?n" by simp
  have l2: "length [0..<?n] = ?n" by simp
  note st = kmeans_step_identity[OF lt d near fin one]
  have "\<exists>tr. kmeans_loop ops rs points ?n (Suc m) ?z points s [] = Inr ([0..<?n], points, s, tr)"
  proof (cases "?z \<noteq> [0..<?n]")
    case False
    then show ?thesis using st[OF la, of rs s] by simp
  next
    case True
    show ?thesis
    proof (cases m)
      case 0
      then show ?thesis using True st[OF la, of rs s] by simp
    next
      case (Suc m')
      then show ?thesis using True st[OF la, of rs s] st[OF l2, of rs s] by simp
    qed
  qed
  then show ?thesis by (simp add: kmeans_run_def ic m)
qed

lemma count_loop_upt:
  "length cc = n \<Longrightarrow> i \<le> n \<Longrightarrow>
   count_loop [i..<n] cc = Inr (take i cc @ map Suc (drop i cc))"
proof (induction "n - i" arbitrary: i cc)
  case 0
  then show ?case by simp
next
  case (Suc d)
  then have i: "i < n" by simp
  have u: "[i..<n] = i # [Suc i..<n]" using i by (simp add: upt_conv_Cons)
  have l: "length (cc[i := cc ! i + 1]) = n" using Suc.prems by simp
  have dd: "d = n - Suc i" using Suc.hyps(2) by simp
  have dr: "drop i cc = cc ! i # drop (Suc i) cc"
    using i Suc.prems by (simp add: Cons_nth_drop_Suc)
  from Suc.hyps(1)[OF dd l] i have
    "count_loop [Suc i..<n] (cc[i := cc ! i + 1]) =
       Inr (take (Suc i) (cc[i := cc ! i + 1]) @ map Suc (drop (Suc i) (cc[i := cc ! i + 1])))"
    by simp
  then show ?case using i Suc.prems dr
    by (simp add: u py_get_def take_Suc_conv_app_nth)
qed

lemma cluster_sizes_upt: "cluster_sizes n [0..<n] = Inr (replicate n 1)"
proof -
  have "count_loop [0..<n] (replicate n 0) = Inr (take 0 (replicate n 0) @ map Suc (drop 0 (replicate n 0)))"
    by (rule count_loop_upt) simp_all
  then show ?thesis by (simp add: cluster_sizes_def)
qed

section \<open>One cluster\<close>

lemma cluster_points_all_zero:
  "cluster_points (zip ps (replicate (length ps) 0)) 0 = ps"
  by (induction ps) (simp_all add: cluster_points_def)

lemma recomputed_single:
  "recomputed ops ps (replicate (length ps) 0) (Suc 0) = [mean_point ops ps]"
  by (simp add: recomputed_def cluster_points_all_zero mean_point_def)

lemma init_centroids_one:
  assumes "ps \<noteq> []"
  shows "\<exists>c s0. init_centroids rs ps (Suc 0) s = Inr ([c], s0) \<and> c \<in> set ps \<and>
           (length ps = 1 \<longrightarrow> c = hd ps \<and> s0 = s)"
proof (cases "length ps = 1")
  case True
  then obtain p where "ps = [p]" by (cases ps) auto
  then show ?thesis by (simp add: init_centroids_def)
next
  case False
  with assms have l: "\<not> length ps \<le> Suc 0" by (cases ps) auto
  obtain sel s' where p: "pick rs (length ps) (Suc 0) s = (sel, s')"
    by (cases "pick rs (length ps) (Suc 0) s")
  have "0 < length ps" using assms by simp
  then have "sel 0 mod length ps < length ps" by simp
  then have mem: "ps ! (sel 0 mod length ps) \<in> set ps" by simp
  have "init_centroids rs ps (Suc 0) s = Inr ([ps ! (sel 0 mod length ps)], s')"
    using l p assms by (simp add: init_centroids_def random_sample_def)
  with mem False show ?thesis by blast
qed

lemma nearest_one: "euclidean2 ops p c = Inr d \<Longrightarrow> nearest ops p [c] (Suc 0) = Inr 0"
  by (simp add: nearest_def py_get_def)

lemma kmeans_k1:
  assumes ne: "ps \<noteq> []" and mi: "1 \<le> max_iter"
    and ok: "\<forall>p\<in>set ps. \<forall>q\<in>set ps. \<exists>d. euclidean2 ops p q = Inr d"
    and nn: "\<not> has_nan ops (mean_point ops ps)"
  shows "\<exists>s0. kmeans ops rs ps (Suc 0) max_iter s =
           Inr (replicate (length ps) 0, [mean_point ops ps], s0) \<and>
           (length ps = 1 \<longrightarrow> s0 = s)"
proof -
  let ?z = "replicate (length ps) (0::nat)"
  from init_centroids_one[OF ne, of rs s] obtain c s0 where
    ic: "init_centroids rs ps (Suc 0) s = Inr ([c], s0)" and c: "c \<in> set ps"
    and s0: "length ps = 1 \<longrightarrow> s0 = s" by blast
  have nr: "\<forall>p\<in>set ps. nearest ops p [c] (Suc 0) = Inr ((\<lambda>p. 0) p)"
  proof
    fix p assume "p \<in> set ps"
    with ok c obtain d where "euclidean2 ops p c = Inr d" by blast
    then show "nearest ops p [c] (Suc 0) = Inr ((\<lambda>p. 0) p)" by (simp add: nearest_one)
  qed
  have m: "map (\<lambda>p. 0::nat) ps = ?z" by (simp add: map_replicate_const)
  have ltk: "\<forall>p\<in>set ps. (\<lambda>p. 0::nat) p < Suc 0" by simp
  have r: "recomputed ops ps (map (\<lambda>p. 0) ps) (Suc 0) = [mean_point ops ps]"
    unfolding m by (rule recomputed_single)
  have n2: "\<forall>c\<in>set (recomputed ops ps (map (\<lambda>p. 0) ps) (Suc 0)). \<not> has_nan ops c"
    unfolding r using nn by simp
  have la: "length ?z = length ps" by simp
  from kmeans_step_exact[OF la nr ltk n2, of rs s0]
  have st: "kmeans_step ops rs ps (Suc 0) ?z [c] s0 = Inr (?z, [mean_point ops ps], s0, False)"
    unfolding m by (simp add: recomputed_single)
  obtain k where k: "nat max_iter = Suc k" using mi by (cases "nat max_iter") auto
  have "kmeans_loop ops rs ps (Suc 0) (nat max_iter) ?z [c] s0 [] =
          Inr (?z, [mean_point ops ps], s0, [False])"
    unfolding k using st by simp
  then have "kmeans ops rs ps (Suc 0) max_iter s = Inr (?z, [mean_point ops ps], s0)"
    using ic by (simp add: kmeans_def kmeans_run_def)
  with s0 show ?thesis by blast
qed

lemma kmeans_single_point:
  assumes ok: "\<exists>d. euclidean2 ops p p = Inr d"
    and nn: "\<not> has_nan ops (mean_point ops [p])"
    and mp: "mean_point ops [p] = p"
  shows "kmeans ops rs [p] (Suc 0) max_iter s = Inr ([0], [p], s)"
proof (cases "1 \<le> max_iter")
  case True
  have ne: "[p] \<noteq> []" by simp
  have ok': "\<forall>a\<in>set [p]. \<forall>q\<in>set [p]. \<exists>d. euclidean2 ops a q = Inr d" using ok by simp
  from kmeans_k1[OF ne True ok' nn, of rs s] mp show ?thesis by simp
next
  case False
  then have "nat max_iter = 0" by simp
  then show ?thesis by (simp add: kmeans_def kmeans_run_def init_centroids_def)
qed

section \<open>Binary64 evaluation\<close>

lemma fsub_Num: "fsub (Num a) (Num b) = round64 (a - b)"
  by (simp add: fsub_def)

lemma fsq_zero [simp]: "fsq (Num 0) = Some (Num 0)"
  by simp

lemma euclidean2_self [simp]: "euclidean2 py64 (Num a, Num b) (Num a, Num b) = Inr (Num 0)"
  by (simp add: euclidean2_def fsub_Num)

lemma pow2_below: "n < 1024 \<Longrightarrow> \<bar>(2::real) ^ n\<bar> < 2 ^ 1024"
proof -
  assume "n < 1024"
  then have "(2::real) ^ n < 2 ^ 1024" by (intro power_strict_increasing) simp_all
  moreover have "\<bar>(2::real) ^ n\<bar> = 2 ^ n" by simp
  ultimately show ?thesis by (simp only:)
qed

lemma round64_pow2: "n < 1024 \<Longrightarrow> round64 (2 ^ n) = Num (2 ^ n)"
  by (rule round64_fix) (simp_all only: rnd64_pow2 pow2_below)

lemma round64_neg_pow2: "n < 1024 \<Longrightarrow> round64 (- (2 ^ n)) = Num (- (2 ^ n))"
  by (rule round64_fix) (simp_all only: rnd64_neg_pow2 pow2_below abs_minus_cancel)

lemma big_facts:
  assumes "h = (2::real) ^ 512"
  shows "round64 h = Num h" "round64 (- h) = Num (- h)" "fsq (Num h) = None"
    "fsq (Num (- h)) = None"
proof -
  show "round64 h = Num h" unfolding assms by (rule round64_pow2) simp
  show "round64 (- h) = Num (- h)" unfolding assms by (rule round64_neg_pow2) simp
  have sq: "h * h = 2 ^ 1024" unfolding assms by (simp add: power_add [symmetric])
  have r: "rnd64 (h * h) = 2 ^ 1024" unfolding sq by (rule rnd64_pow2)
  show "fsq (Num h) = None" unfolding fsq.simps r Let_def by simp
  have "- h * - h = h * h" by simp
  then show "fsq (Num (- h)) = None" unfolding fsq.simps Let_def using r by simp
qed

lemma small_facts:
  assumes "t = 1 / (2::real) ^ 600"
  shows "round64 t = Num t" "fsq (Num t) = Some (Num 0)" "0 < t"
proof -
  have r: "rnd64 t = t" unfolding assms by (rule rnd64_inv_pow2) simp
  show pos: "0 < t" unfolding assms by simp
  have "t \<le> 1" unfolding assms by simp
  also have "(1::real) < 2 ^ 1024" by simp
  finally have "\<bar>t\<bar> < 2 ^ 1024" using pos by simp
  with r show "round64 t = Num t" by (rule round64_fix)
  have tt: "t * t = 2 powr (- 1200)"
  proof -
    have "t = 2 powr (- 600)" unfolding assms by (simp add: powr_minus_divide powr_realpow [symmetric])
    then have "t * t = 2 powr (- 600) * 2 powr (- 600)" by simp
    also have "\<dots> = 2 powr (- 1200)" by (simp add: powr_add [symmetric])
    finally show ?thesis .
  qed
  have "rnd64 (t * t) = 0"
  proof (rule rnd64_tiny)
    show "0 < t * t" using pos by simp
    show "t * t < 2 powr (- 1075)" unfolding tt by simp
  qed
  then show "fsq (Num t) = Some (Num 0)" by (simp add: Let_def)
qed

lemma round64_not_nan [simp]: "isnan (round64 r) = False"
  by (simp add: round64_def Let_def)

lemma fadd_Num_not_nan: "\<not> isnan a \<Longrightarrow> \<not> isnan (fadd a (Num x))"
  by (cases a) simp_all

lemma fdiv_count_not_nan: "\<not> isnan a \<Longrightarrow> \<not> isnan (fdiv_count a n)"
  by (cases a) simp_all

lemma pair_nth_mod2: "[p, p] ! (v mod Suc (Suc 0)) = p"
proof -
  have "v mod Suc (Suc 0) < Suc (Suc 0)" by (rule mod_less_divisor) simp
  then have "v mod Suc (Suc 0) = 0 \<or> v mod Suc (Suc 0) = Suc 0" by linarith
  then show ?thesis by auto
qed

lemma twin_mean_not_nan:
  "\<not> has_nan py64 (mean_point py64 [(Num x, Num y), (Num x, Num y)])"
proof -
  have "\<not> isnan (fdiv_count (fadd (fadd (Num 0) (Num x)) (Num x)) n)" for x n
    by (intro fdiv_count_not_nan fadd_Num_not_nan) simp
  then show ?thesis
    by (simp add: has_nan_def mean_point_def centroid_of_def point_add_def del: fadd.simps)
qed

lemma twin_assign:
  assumes "euclidean2 py64 (Num x, Num y) c = Inr (Num 0)"
  shows "assign_loop py64 [c, (Num x, Num y)] 2 0 [(Num x, Num y), (Num x, Num y)] [0, 0] False =
     Inr ([0, 0], False)"
  using assms by (simp add: nearest_def py_get_def eval_nat_numeral)

lemma twin_recompute:
  "recompute_centroids py64 [(Num x, Num y), (Num x, Num y)] [0, 0] 2 =
     Inr [mean_point py64 [(Num x, Num y), (Num x, Num y)], (NaN, NaN)]"
  by (simp add: recompute_centroids_def py_get_def centroid_of_def mean_point_def point_add_def
      eval_nat_numeral)

lemma twin_reseed:
  "\<exists>s'. reseed py64 rs [(Num x, Num y), (Num x, Num y)]
           [mean_point py64 [(Num x, Num y), (Num x, Num y)], (NaN, NaN)] s False =
     Inr ([mean_point py64 [(Num x, Num y), (Num x, Num y)], (Num x, Num y)], s', True)"
proof -
  obtain v s' where d: "draw rs 2 s = (v, s')" by (cases "draw rs 2 s")
  have n: "\<not> (isnan (fst (mean_point py64 [(Num x, Num y), (Num x, Num y)])) \<or>
              isnan (snd (mean_point py64 [(Num x, Num y), (Num x, Num y)])))"
    using twin_mean_not_nan[of x y] by (simp add: has_nan_def)
  have "reseed py64 rs [(Num x, Num y), (Num x, Num y)]
           [mean_point py64 [(Num x, Num y), (Num x, Num y)], (NaN, NaN)] s False =
     Inr ([mean_point py64 [(Num x, Num y), (Num x, Num y)], (Num x, Num y)], s', True)"
    using n d by (simp add: random_choice_def randbelow_def pair_nth_mod2 eval_nat_numeral)
  then show ?thesis by blast
qed

lemma twin_step:
  assumes "euclidean2 py64 (Num x, Num y) c = Inr (Num 0)"
  shows "\<exists>s'. kmeans_step py64 rs [(Num x, Num y), (Num x, Num y)] 2 [0, 0] [c, (Num x, Num y)] s =
     Inr ([0, 0], [mean_point py64 [(Num x, Num y), (Num x, Num y)], (Num x, Num y)], s', True)"
proof -
  from twin_reseed[of rs x y s] obtain s' where
    r: "reseed py64 rs [(Num x, Num y), (Num x, Num y)]
           [mean_point py64 [(Num x, Num y), (Num x, Num y)], (NaN, NaN)] s False =
     Inr ([mean_point py64 [(Num x, Num y), (Num x, Num y)], (Num x, Num y)], s', True)" by blast
  have "kmeans_step py64 rs [(Num x, Num y), (Num x, Num y)] 2 [0, 0] [c, (Num x, Num y)] s =
     Inr ([0, 0], [mean_point py64 [(Num x, Num y), (Num x, Num y)], (Num x, Num y)], s', True)"
    by (simp only: kmeans_step_def twin_assign[OF assms] twin_recompute r sum.case prod.case)
  then show ?thesis by blast
qed

lemma twin_mean_one:
  "mean_point py64 [(Num 1, Num 1), (Num 1, Num 1)] = (Num 1, Num 1)"
  by (simp add: mean_point_def centroid_of_def point_add_def)

lemma twin_step_one:
  "kmeans_step py64 counter_src [(Num 1, Num 1), (Num 1, Num 1)] 2 [0, 0]
     [(Num 1, Num 1), (Num 1, Num 1)] s =
   Inr ([0, 0], [(Num 1, Num 1), (Num 1, Num 1)], Suc s, True)"
proof -
  have e: "euclidean2 py64 (Num 1, Num 1) (Num 1, Num 1) = Inr (Num 0)" by simp
  have n: "\<not> (isnan (fst (mean_point py64 [(Num 1, Num 1), (Num 1, Num 1)])) \<or>
              isnan (snd (mean_point py64 [(Num 1, Num 1), (Num 1, Num 1)])))"
    by (simp add: twin_mean_one)
  have r: "reseed py64 counter_src [(Num 1, Num 1), (Num 1, Num 1)]
           [mean_point py64 [(Num 1, Num 1), (Num 1, Num 1)], (NaN, NaN)] s False =
     Inr ([(Num 1, Num 1), (Num 1, Num 1)], Suc s, True)"
    using n by (simp add: random_choice_def randbelow_def pair_nth_mod2 eval_nat_numeral twin_mean_one)
  show ?thesis
    by (simp only: kmeans_step_def twin_assign[OF e] twin_recompute r sum.case prod.case)
qed

lemma twin_loop:
  "kmeans_loop py64 counter_src [(Num 1, Num 1), (Num 1, Num 1)] 2 m [0, 0]
     [(Num 1, Num 1), (Num 1, Num 1)] s tr =
   Inr ([0, 0], [(Num 1, Num 1), (Num 1, Num 1)], s + m, tr @ replicate m True)"
proof (induction m arbitrary: s tr)
  case 0
  then show ?case by simp
next
  case (Suc m)
  show ?case by (simp add: twin_step_one Suc.IH replicate_append_same)
qed

section \<open>Runs that raise\<close>

lemma kmeans_run_overflow:
  assumes "euclidean2 ops p p = Inr d0" "euclidean2 ops p q = Inl OverflowError" "1 \<le> max_iter"
  shows "kmeans_run ops rs [p, q] 2 max_iter s = Inl OverflowError"
proof -
  obtain m where m: "nat max_iter = Suc m" using assms(3) by (cases "nat max_iter") auto
  show ?thesis using assms(1,2)
    by (simp add: kmeans_run_def init_centroids_def m kmeans_step_def nearest_def py_get_def
        eval_nat_numeral)
qed

lemma kmeans_run_overflow_one:
  assumes "euclidean2 ops p p = Inr d0" "euclidean2 ops q p = Inl OverflowError" "1 \<le> max_iter"
  shows "kmeans_run ops counter_src [p, q] (Suc 0) max_iter 0 = Inl OverflowError"
proof -
  obtain m where m: "nat max_iter = Suc m" using assms(3) by (cases "nat max_iter") auto
  have ic: "init_centroids counter_src [p, q] (Suc 0) 0 = Inr ([p], Suc 0)"
    by (simp add: init_centroids_def random_sample_def)
  show ?thesis using assms(1,2)
    by (simp add: kmeans_run_def ic m kmeans_step_def nearest_def py_get_def)
qed

section \<open>A run on two points\<close>

lemma euclidean2_num:
  "euclidean2 py64 (Num a, Num b) (Num c, Num d) =
     (case fsq (round64 (a - c)) of
        None \<Rightarrow> Inl OverflowError
      | Some u \<Rightarrow> (case fsq (round64 (b - d)) of
                     None \<Rightarrow> Inl OverflowError
                   | Some v \<Rightarrow> Inr (fadd u v)))"
  by (simp add: euclidean2_def fsub_Num split: option.splits)

lemma run_two_points:
  "\<exists>tr. kmeans_run py64 counter_src [(Num 0, Num 0), (Num 3, Num 4)] 2 30 0 =
     Inr ([0, 1], [(Num 0, Num 0), (Num 3, Num 4)], 0, tr)"
proof -
  have d: "distinct [(Num 0, Num 0), (Num 3, Num (4::real))]" by simp
  have near: "\<forall>p\<in>set [(Num 0, Num 0), (Num 3, Num 4)]. \<exists>d0. euclidean2 py64 p p = Inr d0 \<and>
                 (\<forall>q\<in>set [(Num 0, Num 0), (Num 3, Num 4)]. q \<noteq> p \<longrightarrow>
                    (\<exists>d. euclidean2 py64 p q = Inr d \<and> f_lt py64 d0 d))"
    by (simp add: euclidean2_num Let_def)
  have fin: "\<forall>p\<in>set [(Num 0, Num 0), (Num 3, Num 4)].
               \<not> f_isnan py64 (fst p) \<and> \<not> f_isnan py64 (snd p)" by simp
  have one: "\<forall>p\<in>set [(Num 0, Num 0), (Num 3, Num 4)].
               f_div_count py64 (f_add py64 (f_zero py64) (fst p)) 1 = fst p \<and>
               f_div_count py64 (f_add py64 (f_zero py64) (snd p)) 1 = snd p" by simp
  have mi: "1 \<le> (30::int)" by simp
  from kmeans_run_identity[OF lt_order_py64 d near fin one mi, of counter_src 0]
  show ?thesis by (simp add: eval_nat_numeral)
qed

section \<open>The number of clusters\<close>

text \<open>
  C2, as amended. \<open>choose_k\<close> returns 0 when \<open>n \<le> 0\<close>. For
  \<open>0 < n < 2 ^ 53\<close> the float quotient \<open>n / max(1, target_capacity)\<close> may be
  rounded, but its ceiling clamped to \<open>[1, n]\<close> is the clamped ceiling of the exact
  quotient, so \<open>choose_k\<close> returns \<open>max 1 (min \<lceil>n / max 1 target_capacity\<rceil> n)\<close>.
  For every \<open>n \<ge> 1\<close> and every target capacity, \<open>choose_k\<close> either raises
  \<open>OverflowError\<close> (the quotient is too large for a float) or returns a number in
  \<open>[1, n]\<close>.
\<close>

theorem choose_k_spec:
  "(n \<le> 0 \<longrightarrow> choose_k n target_capacity = Inr 0) \<and>
   (0 < n \<and> n < 2 ^ 53 \<longrightarrow>
      choose_k n target_capacity =
        Inr (max 1 (min \<lceil>real_of_int n / real_of_int (max 1 target_capacity)\<rceil> n))) \<and>
   (1 \<le> n \<longrightarrow>
      choose_k n target_capacity = Inl OverflowError \<or>
      (\<exists>k. choose_k n target_capacity = Inr k \<and> 1 \<le> k \<and> k \<le> n))"
proof (intro conjI impI)
  assume "n \<le> 0"
  then show "choose_k n target_capacity = Inr 0" by (simp add: choose_k_def)
next
  assume a: "0 < n \<and> n < 2 ^ 53"
  have m: "1 \<le> max 1 target_capacity" by simp
  from true_div_ceiling[OF _ _ m, of n] a obtain q where
    "true_div n (max 1 target_capacity) = Some q"
    "max 1 (min \<lceil>q\<rceil> n) =
       max 1 (min \<lceil>real_of_int n / real_of_int (max 1 target_capacity)\<rceil> n)"
    by blast
  then show "choose_k n target_capacity =
        Inr (max 1 (min \<lceil>real_of_int n / real_of_int (max 1 target_capacity)\<rceil> n))"
    using a by (simp add: choose_k_def)
next
  assume n: "1 \<le> n"
  show "choose_k n target_capacity = Inl OverflowError \<or>
      (\<exists>k. choose_k n target_capacity = Inr k \<and> 1 \<le> k \<and> k \<le> n)"
  proof (cases "true_div n (max 1 target_capacity)")
    case None
    then show ?thesis using n by (simp add: choose_k_def)
  next
    case (Some q)
    then show ?thesis using n by (simp add: choose_k_def)
  qed
qed

text \<open>
  The amended statement at concrete sizes and capacities: the clamps at 1 and at \<open>n\<close>,
  a quotient that is not a float (\<open>25 / 12\<close>), a negative size and a capacity of 0.
\<close>

theorem choose_k_spec_witness:
  "choose_k 0 12 = Inr 0 \<and> choose_k 25 12 = Inr 3 \<and> choose_k 5 12 = Inr 1 \<and>
   choose_k 1 12 = Inr 1 \<and> choose_k (- 4) 12 = Inr 0 \<and> choose_k 7 0 = Inr 7"
  using choose_k_spec [of 0 12] choose_k_spec [of 25 12] choose_k_spec [of 5 12]
    choose_k_spec [of 1 12] choose_k_spec [of "- 4" 12] choose_k_spec [of 7 0]
  by (simp add: ceiling_def)

text \<open>
  C2 as stated fails for a size whose quotient by the capacity is too large for a float:
  \<open>choose_k(2 ** 1024, 1)\<close> raises \<open>OverflowError\<close> at the division and returns
  nothing.
\<close>

theorem choose_k_spec_counterexample:
  "choose_k (2 ^ 1024) 1 = Inl OverflowError"
proof -
  have e: "real_of_int (2 ^ 1024) / real_of_int (max 1 1) = 2 ^ 1024" by simp
  have t: "true_div (2 ^ 1024) (max 1 1) = None"
    unfolding true_div_def e rnd64_pow2 Let_def by simp
  have p: "\<not> (2::int) ^ 1024 \<le> 0" by simp
  show ?thesis unfolding choose_k_def t using p by simp
qed

section \<open>The assign step\<close>

text \<open>
  C4, as amended. For a centroid list with \<open>1 \<le> k \<le> |centroids|\<close> and an assignment
  list as long as the point list, the assign step either raises \<open>OverflowError\<close> (a
  squared coordinate difference is too large for a float) or gives every point an index
  \<open>a' ! i\<close> below \<open>k\<close> such that, among the squared distances the program
  computes in float arithmetic, none is less (by the program's \<open><\<close>) than the one to
  the centroid of that index, and no centroid of a lower index is at the same computed
  distance. The comparison of floats is only required to be irreflexive and transitive.
\<close>

theorem assign_nearest_lowest_index:
  assumes "lt_order ops" "1 \<le> k" "k \<le> length centroids" "length assignments = length points"
  shows "assign_loop ops centroids k 0 points assignments False = Inl OverflowError \<or>
         (\<exists>a' ch. assign_loop ops centroids k 0 points assignments False = Inr (a', ch) \<and>
           length a' = length points \<and>
           (\<forall>i<length points. a' ! i < k \<and>
              (\<exists>db. euclidean2 ops (points ! i) (centroids ! (a' ! i)) = Inr db \<and>
                 (\<forall>c<k. \<exists>d. euclidean2 ops (points ! i) (centroids ! c) = Inr d \<and>
                           \<not> f_lt ops d db) \<and>
                 (\<forall>c<a' ! i. euclidean2 ops (points ! i) (centroids ! c) \<noteq> Inr db))))"
proof -
  let ?a = "map (best_of ops centroids k) points"
  have "length assignments = 0 + length points" using assms(4) by simp
  from assign_loop_cases[OF assms(2,3) this, of ops False] show ?thesis
  proof
    assume "assign_loop ops centroids k 0 points assignments False = Inl OverflowError"
    then show ?thesis by simp
  next
    assume ok: "(\<forall>p\<in>set points. nearest ops p centroids k = Inr (best_of ops centroids k p)) \<and>
      assign_loop ops centroids k 0 points assignments False =
        Inr (take 0 assignments @ ?a, False \<or> drop 0 assignments \<noteq> ?a)"
    then have r: "assign_loop ops centroids k 0 points assignments False =
        Inr (?a, assignments \<noteq> ?a)" by simp
    have "\<forall>i<length points. ?a ! i < k \<and>
              (\<exists>db. euclidean2 ops (points ! i) (centroids ! (?a ! i)) = Inr db \<and>
                 (\<forall>c<k. \<exists>d. euclidean2 ops (points ! i) (centroids ! c) = Inr d \<and>
                           \<not> f_lt ops d db) \<and>
                 (\<forall>c<?a ! i. euclidean2 ops (points ! i) (centroids ! c) \<noteq> Inr db))"
    proof (intro allI impI)
      fix i assume i: "i < length points"
      then have "nearest ops (points ! i) centroids k = Inr (best_of ops centroids k (points ! i))"
        using ok by simp
      from nearest_spec[OF assms(2,3,1) this] i
      show "?a ! i < k \<and>
              (\<exists>db. euclidean2 ops (points ! i) (centroids ! (?a ! i)) = Inr db \<and>
                 (\<forall>c<k. \<exists>d. euclidean2 ops (points ! i) (centroids ! c) = Inr d \<and>
                           \<not> f_lt ops d db) \<and>
                 (\<forall>c<?a ! i. euclidean2 ops (points ! i) (centroids ! c) \<noteq> Inr db))"
        by simp
    qed
    with r show ?thesis by simp
  qed
qed

text \<open>
  The amended statement in binary64 arithmetic, on three points and two centroids: the step
  returns, and the second point, at the same distance from both centroids, goes to
  centroid 0.
\<close>

theorem assign_nearest_lowest_index_witness:
  "\<exists>a' ch. assign_loop py64 [(Num 0, Num 0), (Num 4, Num 0)] 2 0
             [(Num 1, Num 0), (Num 2, Num 0), (Num 3, Num 0)] [0, 0, 0] False = Inr (a', ch) \<and>
           a' = [0, 0, 1] \<and>
           (\<forall>i<length [(Num 1, Num 0), (Num 2, Num 0), (Num 3, Num (0::real))]. a' ! i < 2 \<and>
              (\<exists>db. euclidean2 py64 ([(Num 1, Num 0), (Num 2, Num 0), (Num 3, Num 0)] ! i)
                       ([(Num 0, Num 0), (Num 4, Num 0)] ! (a' ! i)) = Inr db \<and>
                 (\<forall>c<2. \<exists>d. euclidean2 py64 ([(Num 1, Num 0), (Num 2, Num 0), (Num 3, Num 0)] ! i)
                                ([(Num 0, Num 0), (Num 4, Num 0)] ! c) = Inr d \<and> \<not> f_lt py64 d db) \<and>
                 (\<forall>c<a' ! i. euclidean2 py64 ([(Num 1, Num 0), (Num 2, Num 0), (Num 3, Num 0)] ! i)
                                ([(Num 0, Num 0), (Num 4, Num 0)] ! c) \<noteq> Inr db)))"
proof -
  have v: "assign_loop py64 [(Num 0, Num 0), (Num 4, Num 0)] 2 0
             [(Num 1, Num 0), (Num 2, Num 0), (Num 3, Num 0)] [0, 0, 0] False =
           Inr ([0, 0, 1], True)"
    by (simp add: nearest_def py_get_def euclidean2_num eval_nat_numeral)
  have h2: "1 \<le> (2::nat)" by simp
  have h3: "2 \<le> length [(Num 0, Num 0), (Num 4, Num (0::real))]" by simp
  have h4: "length [0, 0, 0::nat] = length [(Num 1, Num 0), (Num 2, Num 0), (Num 3, Num (0::real))]"
    by simp
  from assign_nearest_lowest_index[OF lt_order_py64 h2 h3 h4] v show ?thesis by simp
qed

text \<open>
  C4 as stated fails where a squared distance underflows. The point
  \<open>(2 ** -600, 0)\<close> has binary64 coordinates and coincides with centroid 1, so its
  squared Euclidean distance to centroid 1 is 0 and to centroid 0 is \<open>2 ** -1200\<close>, which
  is larger; the program computes \<open>0.0\<close> for both and assigns the point to centroid 0,
  which is not at the minimum squared Euclidean distance.
\<close>

theorem assign_nearest_lowest_index_counterexample:
  "round64 (1 / 2 ^ 600) = Num (1 / 2 ^ 600) \<and>
   assign_loop py64 [(Num 0, Num 0), (Num (1 / 2 ^ 600), Num 0)] 2 0
     [(Num (1 / 2 ^ 600), Num 0)] [0] False = Inr ([0], False) \<and>
   (1 / 2 ^ 600 - 1 / 2 ^ 600) ^ 2 + (0 - 0) ^ 2 < (1 / 2 ^ 600 - 0) ^ 2 + (0 - (0::real)) ^ 2"
proof -
  define t :: real where "t = 1 / 2 ^ 600"
  note sf = small_facts[OF t_def]
  have e0: "euclidean2 py64 (Num t, Num 0) (Num 0, Num 0) = Inr (Num 0)"
    by (simp add: euclidean2_num sf del: fsq.simps)
  have "assign_loop py64 [(Num 0, Num 0), (Num t, Num 0)] 2 0 [(Num t, Num 0)] [0] False =
          Inr ([0], False)"
    by (simp add: nearest_def py_get_def e0 eval_nat_numeral)
  moreover have "(t - t) ^ 2 + (0 - 0) ^ 2 < (t - 0) ^ 2 + (0 - (0::real)) ^ 2"
    using sf(3) by simp
  ultimately have "round64 t = Num t \<and>
     assign_loop py64 [(Num 0, Num 0), (Num t, Num 0)] 2 0 [(Num t, Num 0)] [0] False =
       Inr ([0], False) \<and>
     (t - t) ^ 2 + (0 - 0) ^ 2 < (t - 0) ^ 2 + (0 - (0::real)) ^ 2"
    using sf(1) by simp
  then show ?thesis unfolding t_def .
qed

section \<open>The engine\<close>

text \<open>
  C9, as amended. When the point list is non-empty exactly when \<open>k \<ge> 1\<close>, and
  \<open>k \<le> |points|\<close>, \<open>kmeans\<close> has one error path: it either raises
  \<open>OverflowError\<close>, from \<open>x ** 2\<close> in \<open>euclidean2\<close>, or returns a result,
  for every bound on the iterations, every float arithmetic, and every random source and
  state. No list access and no random draw raises.
\<close>

theorem kmeans_no_error:
  assumes "(points \<noteq> []) = (1 \<le> k)" "k \<le> length points"
  shows "kmeans ops rs points k max_iter s = Inl OverflowError \<or>
         (\<exists>a cs s'. kmeans ops rs points k max_iter s = Inr (a, cs, s'))"
proof -
  have "engine_pre points k" using assms by (simp add: engine_pre_def)
  from kmeans_run_result[OF this, of ops rs max_iter s] show ?thesis
  proof
    assume "kmeans_run ops rs points k max_iter s = Inl OverflowError"
    then show ?thesis by (simp add: kmeans_def)
  next
    assume "\<exists>a cs s' tr. kmeans_run ops rs points k max_iter s = Inr (a, cs, s', tr) \<and>
       length a = length points \<and> (\<forall>x\<in>set a. x < k) \<and> length cs = k \<and>
       length tr \<le> nat max_iter \<and> (\<forall>j<length tr. \<not> tr ! j \<longrightarrow> Suc j = length tr) \<and>
       (length tr < nat max_iter \<longrightarrow> tr \<noteq> [] \<and> \<not> last tr) \<and>
       (\<forall>c\<in>set cs. has_nan ops c \<longrightarrow> c \<in> set points)"
    then obtain a cs s' tr where "kmeans_run ops rs points k max_iter s = Inr (a, cs, s', tr)"
      by blast
    then show ?thesis by (simp add: kmeans_def)
  qed
qed

text \<open>
  The amended statement in binary64 arithmetic, on two points with two clusters and 30
  iterations allowed: the run returns.
\<close>

theorem kmeans_no_error_witness:
  "\<exists>a cs s'. kmeans py64 counter_src [(Num 0, Num 0), (Num 3, Num 4)] 2 30 0 = Inr (a, cs, s')"
proof -
  from run_two_points obtain tr where
    r: "kmeans_run py64 counter_src [(Num 0, Num 0), (Num 3, Num 4)] 2 30 0 =
          Inr ([0, 1], [(Num 0, Num 0), (Num 3, Num 4)], 0, tr)" by blast
  have k: "kmeans py64 counter_src [(Num 0, Num 0), (Num 3, Num 4)] 2 30 0 =
          Inr ([0, 1], [(Num 0, Num 0), (Num 3, Num 4)], 0)"
    by (simp add: kmeans_def r)
  have h1: "([(Num 0, Num 0), (Num 3, Num (4::real))] \<noteq> []) = (1 \<le> (2::nat))" by simp
  have h2: "2 \<le> length [(Num 0, Num 0), (Num 3, Num (4::real))]" by simp
  from kmeans_no_error[OF h1 h2, of py64 counter_src 30 0] k show ?thesis by simp
qed

text \<open>
  C9 as stated fails on two points whose second coordinates are \<open>2 ** 512\<close> apart: the
  precondition holds (\<open>k = 2 = |points|\<close>), and the first pass raises
  \<open>OverflowError\<close> when it squares the difference.
\<close>

theorem kmeans_no_error_counterexample:
  "kmeans py64 counter_src [(Num 0, Num (2 ^ 512)), (Num 0, Num 0)] 2 30 0 = Inl OverflowError"
proof -
  define h :: real where "h = 2 ^ 512"
  note bf = big_facts[OF h_def]
  have e0: "euclidean2 py64 (Num 0, Num h) (Num 0, Num h) = Inr (Num 0)" by simp
  have e1: "euclidean2 py64 (Num 0, Num h) (Num 0, Num 0) = Inl OverflowError"
    by (simp add: euclidean2_num bf del: fsq.simps)
  have "kmeans_run py64 counter_src [(Num 0, Num h), (Num 0, Num 0)] 2 30 0 = Inl OverflowError"
    by (rule kmeans_run_overflow[OF e0 e1]) simp
  then have "kmeans py64 counter_src [(Num 0, Num h), (Num 0, Num 0)] 2 30 0 = Inl OverflowError"
    by (simp add: kmeans_def)
  then show ?thesis unfolding h_def .
qed

text \<open>
  C3, as amended. For a non-empty point list and \<open>1 \<le> k \<le> |points|\<close>, whatever the
  bound on the iterations, the float arithmetic and the random source, \<open>kmeans\<close>
  either raises \<open>OverflowError\<close> or returns an assignment list as long as the point
  list with every entry below \<open>k\<close>; the cluster sizes \<open>main\<close> then counts from
  it are \<open>k\<close> numbers whose sum is the number of points.
\<close>

theorem kmeans_assignment_range:
  assumes "points \<noteq> []" "1 \<le> k" "k \<le> length points"
  shows "kmeans ops rs points k max_iter s = Inl OverflowError \<or>
         (\<exists>a cs s'. kmeans ops rs points k max_iter s = Inr (a, cs, s') \<and>
           length a = length points \<and> (\<forall>x\<in>set a. x < k) \<and>
           (\<exists>sizes. cluster_sizes k a = Inr sizes \<and> length sizes = k \<and>
                     sum_list sizes = length points))"
proof -
  have "engine_pre points k" using assms by (simp add: engine_pre_def)
  from kmeans_run_result[OF this, of ops rs max_iter s] show ?thesis
  proof
    assume "kmeans_run ops rs points k max_iter s = Inl OverflowError"
    then show ?thesis by (simp add: kmeans_def)
  next
    assume "\<exists>a cs s' tr. kmeans_run ops rs points k max_iter s = Inr (a, cs, s', tr) \<and>
       length a = length points \<and> (\<forall>x\<in>set a. x < k) \<and> length cs = k \<and>
       length tr \<le> nat max_iter \<and> (\<forall>j<length tr. \<not> tr ! j \<longrightarrow> Suc j = length tr) \<and>
       (length tr < nat max_iter \<longrightarrow> tr \<noteq> [] \<and> \<not> last tr) \<and>
       (\<forall>c\<in>set cs. has_nan ops c \<longrightarrow> c \<in> set points)"
    then obtain a cs s' tr where
      r: "kmeans_run ops rs points k max_iter s = Inr (a, cs, s', tr)"
         "length a = length points" "\<forall>x\<in>set a. x < k" by blast
    have "\<forall>x\<in>set a. x < length (replicate k (0::nat))" using r(3) by simp
    from count_loop_ok[OF this] obtain sizes where
      "cluster_sizes k a = Inr sizes" "length sizes = k" "sum_list sizes = length a"
      by (auto simp: cluster_sizes_def)
    with r show ?thesis by (simp add: kmeans_def)
  qed
qed

text \<open>
  The amended statement in binary64 arithmetic, on two points with two clusters and 30
  iterations allowed: the run returns an assignment list with these properties.
\<close>

theorem kmeans_assignment_range_witness:
  "\<exists>a cs s'. kmeans py64 counter_src [(Num 0, Num 0), (Num 3, Num 4)] 2 30 0 = Inr (a, cs, s') \<and>
     length a = length [(Num 0, Num 0), (Num 3, Num (4::real))] \<and> (\<forall>x\<in>set a. x < 2) \<and>
     (\<exists>sizes. cluster_sizes 2 a = Inr sizes \<and> length sizes = 2 \<and>
        sum_list sizes = length [(Num 0, Num 0), (Num 3, Num (4::real))])"
proof -
  from run_two_points obtain tr where
    r: "kmeans_run py64 counter_src [(Num 0, Num 0), (Num 3, Num 4)] 2 30 0 =
          Inr ([0, 1], [(Num 0, Num 0), (Num 3, Num 4)], 0, tr)" by blast
  have k: "kmeans py64 counter_src [(Num 0, Num 0), (Num 3, Num 4)] 2 30 0 =
          Inr ([0, 1], [(Num 0, Num 0), (Num 3, Num 4)], 0)"
    by (simp add: kmeans_def r)
  have h1: "[(Num 0, Num 0), (Num 3, Num (4::real))] \<noteq> []" by simp
  have h2: "1 \<le> (2::nat)" by simp
  have h3: "2 \<le> length [(Num 0, Num 0), (Num 3, Num (4::real))]" by simp
  from kmeans_assignment_range[OF h1 h2 h3, of py64 counter_src 30 0] k show ?thesis by simp
qed

text \<open>
  C3 as stated fails on two points whose first coordinates are \<open>2 ** 512\<close> apart:
  the point list is non-empty, \<open>k = 2 = |points|\<close>, and \<open>kmeans\<close> raises
  \<open>OverflowError\<close> instead of returning an assignment list.
\<close>

theorem kmeans_assignment_range_counterexample:
  "kmeans py64 counter_src [(Num (2 ^ 512), Num 0), (Num 0, Num 0)] 2 30 0 = Inl OverflowError"
proof -
  define h :: real where "h = 2 ^ 512"
  note bf = big_facts[OF h_def]
  have e0: "euclidean2 py64 (Num h, Num 0) (Num h, Num 0) = Inr (Num 0)" by simp
  have e1: "euclidean2 py64 (Num h, Num 0) (Num 0, Num 0) = Inl OverflowError"
    by (simp add: euclidean2_num bf del: fsq.simps)
  have "kmeans_run py64 counter_src [(Num h, Num 0), (Num 0, Num 0)] 2 30 0 = Inl OverflowError"
    by (rule kmeans_run_overflow[OF e0 e1]) simp
  then have "kmeans py64 counter_src [(Num h, Num 0), (Num 0, Num 0)] 2 30 0 = Inl OverflowError"
    by (simp add: kmeans_def)
  then show ?thesis unfolding h_def .
qed

text \<open>
  C5, as amended. On a valid input \<open>kmeans\<close> either raises \<open>OverflowError\<close>
  during a pass or makes at most \<open>max_iter\<close> passes: the log holds the value of
  \<open>changed\<close> at the end of each pass made, it is no longer than \<open>max_iter\<close>, a
  pass that ends with \<open>changed\<close> false is the last one, and when fewer than
  \<open>max_iter\<close> passes were made the last one ended with \<open>changed\<close> false. A
  pass that does not raise ends with \<open>changed\<close> true exactly when it changed the
  assignment list or a recomputed centroid had a not-a-number coordinate, that is, was
  re-seeded.
\<close>

theorem kmeans_iteration_bound:
  assumes "(points \<noteq> []) = (1 \<le> k)" "k \<le> length points"
  shows "(kmeans_run ops rs points k max_iter s = Inl OverflowError \<or>
          (\<exists>a cs s' tr. kmeans_run ops rs points k max_iter s = Inr (a, cs, s', tr) \<and>
            length tr \<le> nat max_iter \<and>
            (\<forall>j<length tr. \<not> tr ! j \<longrightarrow> Suc j = length tr) \<and>
            (length tr < nat max_iter \<longrightarrow> tr \<noteq> [] \<and> \<not> last tr))) \<and>
         (\<forall>a cs s0. length a = length points \<longrightarrow> length cs = k \<longrightarrow>
            kmeans_step ops rs points k a cs s0 = Inl OverflowError \<or>
            (\<exists>a1 cs1 s1 ch cs0. kmeans_step ops rs points k a cs s0 = Inr (a1, cs1, s1, ch) \<and>
               recompute_centroids ops points a1 k = Inr cs0 \<and>
               ch = (a1 \<noteq> a \<or> (\<exists>c\<in>set cs0. f_isnan ops (fst c) \<or> f_isnan ops (snd c)))))"
proof -
  have pre: "engine_pre points k" using assms by (simp add: engine_pre_def)
  have one: "kmeans_run ops rs points k max_iter s = Inl OverflowError \<or>
          (\<exists>a cs s' tr. kmeans_run ops rs points k max_iter s = Inr (a, cs, s', tr) \<and>
            length tr \<le> nat max_iter \<and>
            (\<forall>j<length tr. \<not> tr ! j \<longrightarrow> Suc j = length tr) \<and>
            (length tr < nat max_iter \<longrightarrow> tr \<noteq> [] \<and> \<not> last tr))"
  proof -
    from kmeans_run_result[OF pre, of ops rs max_iter s] show ?thesis
    proof
      assume "kmeans_run ops rs points k max_iter s = Inl OverflowError"
      then show ?thesis by simp
    next
      assume "\<exists>a cs s' tr. kmeans_run ops rs points k max_iter s = Inr (a, cs, s', tr) \<and>
         length a = length points \<and> (\<forall>x\<in>set a. x < k) \<and> length cs = k \<and>
         length tr \<le> nat max_iter \<and> (\<forall>j<length tr. \<not> tr ! j \<longrightarrow> Suc j = length tr) \<and>
         (length tr < nat max_iter \<longrightarrow> tr \<noteq> [] \<and> \<not> last tr) \<and>
         (\<forall>c\<in>set cs. has_nan ops c \<longrightarrow> c \<in> set points)"
      then obtain a cs s' tr where
        "kmeans_run ops rs points k max_iter s = Inr (a, cs, s', tr)"
        "length tr \<le> nat max_iter" "\<forall>j<length tr. \<not> tr ! j \<longrightarrow> Suc j = length tr"
        "length tr < nat max_iter \<longrightarrow> tr \<noteq> [] \<and> \<not> last tr" by blast
      then show ?thesis by blast
    qed
  qed
  have two: "kmeans_step ops rs points k a cs s0 = Inl OverflowError \<or>
            (\<exists>a1 cs1 s1 ch cs0. kmeans_step ops rs points k a cs s0 = Inr (a1, cs1, s1, ch) \<and>
               recompute_centroids ops points a1 k = Inr cs0 \<and>
               ch = (a1 \<noteq> a \<or> (\<exists>c\<in>set cs0. f_isnan ops (fst c) \<or> f_isnan ops (snd c))))"
    if la: "length a = length points" and lc: "length cs = k" for a cs s0
  proof -
    let ?a = "map (best_of ops cs k) points"
    have sp: "(points = [] \<and> k = 0) \<or> (points \<noteq> [] \<and> 1 \<le> k \<and> k \<le> length cs)"
      by (rule engine_pre_step[OF pre lc])
    from kmeans_step_cases[OF sp la, of ops rs s0] show ?thesis
    proof
      assume "kmeans_step ops rs points k a cs s0 = Inl OverflowError"
      then show ?thesis by simp
    next
      assume "(\<forall>p\<in>set points. nearest ops p cs k = Inr (best_of ops cs k p)) \<and>
          (\<exists>cs' s'. kmeans_step ops rs points k a cs s0 =
             Inr (?a, cs', s', a \<noteq> ?a \<or> (\<exists>c\<in>set (recomputed ops points ?a k). has_nan ops c)) \<and>
             length cs' = k \<and>
             (\<forall>j<k. if has_nan ops (recomputed ops points ?a k ! j) then cs' ! j \<in> set points
                    else cs' ! j = recomputed ops points ?a k ! j))"
      then obtain cs' s' where
        st: "kmeans_step ops rs points k a cs s0 =
             Inr (?a, cs', s', a \<noteq> ?a \<or> (\<exists>c\<in>set (recomputed ops points ?a k). has_nan ops c))"
        by blast
      have lt: "\<forall>x\<in>set ?a. x < k" by (rule best_of_all_lt[OF sp])
      have rc: "recompute_centroids ops points ?a k = Inr (recomputed ops points ?a k)"
        by (rule recompute_centroids_result[OF lt])
      have "(a \<noteq> ?a \<or> (\<exists>c\<in>set (recomputed ops points ?a k). has_nan ops c)) =
            (?a \<noteq> a \<or> (\<exists>c\<in>set (recomputed ops points ?a k).
                           f_isnan ops (fst c) \<or> f_isnan ops (snd c)))"
        by (auto simp: has_nan_def)
      with st rc show ?thesis by simp
    qed
  qed
  show ?thesis
  proof (intro conjI allI impI)
    show "kmeans_run ops rs points k max_iter s = Inl OverflowError \<or>
          (\<exists>a cs s' tr. kmeans_run ops rs points k max_iter s = Inr (a, cs, s', tr) \<and>
            length tr \<le> nat max_iter \<and>
            (\<forall>j<length tr. \<not> tr ! j \<longrightarrow> Suc j = length tr) \<and>
            (length tr < nat max_iter \<longrightarrow> tr \<noteq> [] \<and> \<not> last tr))" by (rule one)
  qed (rule two)
qed

text \<open>
  The amended statement in binary64 arithmetic, on two points with two clusters and 30
  iterations allowed: the run returns, and its log has these properties.
\<close>

theorem kmeans_iteration_bound_witness:
  "\<exists>a cs s' tr. kmeans_run py64 counter_src [(Num 0, Num 0), (Num 3, Num 4)] 2 30 0 =
        Inr (a, cs, s', tr) \<and>
      length tr \<le> nat 30 \<and>
      (\<forall>j<length tr. \<not> tr ! j \<longrightarrow> Suc j = length tr) \<and>
      (length tr < nat 30 \<longrightarrow> tr \<noteq> [] \<and> \<not> last tr)"
proof -
  from run_two_points obtain tr where
    r: "kmeans_run py64 counter_src [(Num 0, Num 0), (Num 3, Num 4)] 2 30 0 =
          Inr ([0, 1], [(Num 0, Num 0), (Num 3, Num 4)], 0, tr)" by blast
  have h1: "([(Num 0, Num 0), (Num 3, Num (4::real))] \<noteq> []) = (1 \<le> (2::nat))" by simp
  have h2: "2 \<le> length [(Num 0, Num 0), (Num 3, Num (4::real))]" by simp
  from conjunct1[OF kmeans_iteration_bound[OF h1 h2, of py64 counter_src 30 0]] r
  show ?thesis by simp
qed

text \<open>
  C5 as stated fails on two points whose first coordinates are \<open>2 ** 512\<close> apart,
  with 30 iterations allowed: the run stops in its first pass by raising
  \<open>OverflowError\<close>, before the bound and without a pass that left the assignments and
  the centroids unchanged.
\<close>

theorem kmeans_iteration_bound_counterexample:
  "kmeans_run py64 counter_src [(Num 0, Num 0), (Num (2 ^ 512), Num 0)] 2 30 0 =
     Inl OverflowError"
proof -
  define h :: real where "h = 2 ^ 512"
  note bf = big_facts[OF h_def]
  have e0: "euclidean2 py64 (Num 0, Num 0) (Num 0, Num 0) = Inr (Num 0)" by simp
  have e1: "euclidean2 py64 (Num 0, Num 0) (Num h, Num 0) = Inl OverflowError"
    by (simp add: euclidean2_num bf del: fsq.simps)
  have "kmeans_run py64 counter_src [(Num 0, Num 0), (Num h, Num 0)] 2 30 0 = Inl OverflowError"
    by (rule kmeans_run_overflow[OF e0 e1]) simp
  then show ?thesis unfolding h_def .
qed

text \<open>
  C8, as amended. For a non-empty point list without not-a-number coordinates and
  \<open>1 \<le> k \<le> |points|\<close>, whatever the bound on the iterations, the float arithmetic
  and the random source, \<open>kmeans\<close> either raises \<open>OverflowError\<close> or returns
  centroids none of which has a not-a-number coordinate. In every pass that does not raise,
  a recomputed centroid with a not-a-number coordinate (an empty cluster) is replaced by one
  of the points before the pass ends, and the other centroids are kept.
\<close>

theorem kmeans_centroids_defined:
  assumes "points \<noteq> []" "\<forall>p\<in>set points. \<not> f_isnan ops (fst p) \<and> \<not> f_isnan ops (snd p)"
    "1 \<le> k" "k \<le> length points"
  shows "(kmeans ops rs points k max_iter s = Inl OverflowError \<or>
          (\<exists>a cs s'. kmeans ops rs points k max_iter s = Inr (a, cs, s') \<and>
            (\<forall>c\<in>set cs. \<not> f_isnan ops (fst c) \<and> \<not> f_isnan ops (snd c)))) \<and>
         (\<forall>a cs s0. length a = length points \<longrightarrow> length cs = k \<longrightarrow>
            kmeans_step ops rs points k a cs s0 = Inl OverflowError \<or>
            (\<exists>a1 cs1 s1 ch cs0. kmeans_step ops rs points k a cs s0 = Inr (a1, cs1, s1, ch) \<and>
               recompute_centroids ops points a1 k = Inr cs0 \<and> length cs0 = k \<and> length cs1 = k \<and>
               (\<forall>j<k. if f_isnan ops (fst (cs0 ! j)) \<or> f_isnan ops (snd (cs0 ! j))
                      then cs1 ! j \<in> set points else cs1 ! j = cs0 ! j)))"
proof -
  have pre: "engine_pre points k" using assms by (simp add: engine_pre_def)
  have one: "kmeans ops rs points k max_iter s = Inl OverflowError \<or>
          (\<exists>a cs s'. kmeans ops rs points k max_iter s = Inr (a, cs, s') \<and>
            (\<forall>c\<in>set cs. \<not> f_isnan ops (fst c) \<and> \<not> f_isnan ops (snd c)))"
  proof -
    from kmeans_run_result[OF pre, of ops rs max_iter s] show ?thesis
    proof
      assume "kmeans_run ops rs points k max_iter s = Inl OverflowError"
      then show ?thesis by (simp add: kmeans_def)
    next
      assume "\<exists>a cs s' tr. kmeans_run ops rs points k max_iter s = Inr (a, cs, s', tr) \<and>
         length a = length points \<and> (\<forall>x\<in>set a. x < k) \<and> length cs = k \<and>
         length tr \<le> nat max_iter \<and> (\<forall>j<length tr. \<not> tr ! j \<longrightarrow> Suc j = length tr) \<and>
         (length tr < nat max_iter \<longrightarrow> tr \<noteq> [] \<and> \<not> last tr) \<and>
         (\<forall>c\<in>set cs. has_nan ops c \<longrightarrow> c \<in> set points)"
      then obtain a cs s' tr where
        r: "kmeans_run ops rs points k max_iter s = Inr (a, cs, s', tr)"
        and nn: "\<forall>c\<in>set cs. has_nan ops c \<longrightarrow> c \<in> set points" by blast
      have dn: "\<forall>c\<in>set cs. \<not> f_isnan ops (fst c) \<and> \<not> f_isnan ops (snd c)"
      proof
        fix c assume c: "c \<in> set cs"
        show "\<not> f_isnan ops (fst c) \<and> \<not> f_isnan ops (snd c)"
        proof (cases "has_nan ops c")
          case True
          with nn c have "c \<in> set points" by simp
          with assms(2) show ?thesis by simp
        next
          case False
          then show ?thesis by (simp add: has_nan_def)
        qed
      qed
      from r dn show ?thesis by (simp add: kmeans_def)
    qed
  qed
  have two: "kmeans_step ops rs points k a cs s0 = Inl OverflowError \<or>
            (\<exists>a1 cs1 s1 ch cs0. kmeans_step ops rs points k a cs s0 = Inr (a1, cs1, s1, ch) \<and>
               recompute_centroids ops points a1 k = Inr cs0 \<and> length cs0 = k \<and> length cs1 = k \<and>
               (\<forall>j<k. if f_isnan ops (fst (cs0 ! j)) \<or> f_isnan ops (snd (cs0 ! j))
                      then cs1 ! j \<in> set points else cs1 ! j = cs0 ! j))"
    if la: "length a = length points" and lc: "length cs = k" for a cs s0
  proof -
    let ?a = "map (best_of ops cs k) points"
    have sp: "(points = [] \<and> k = 0) \<or> (points \<noteq> [] \<and> 1 \<le> k \<and> k \<le> length cs)"
      by (rule engine_pre_step[OF pre lc])
    from kmeans_step_cases[OF sp la, of ops rs s0] show ?thesis
    proof
      assume "kmeans_step ops rs points k a cs s0 = Inl OverflowError"
      then show ?thesis by simp
    next
      assume "(\<forall>p\<in>set points. nearest ops p cs k = Inr (best_of ops cs k p)) \<and>
          (\<exists>cs' s'. kmeans_step ops rs points k a cs s0 =
             Inr (?a, cs', s', a \<noteq> ?a \<or> (\<exists>c\<in>set (recomputed ops points ?a k). has_nan ops c)) \<and>
             length cs' = k \<and>
             (\<forall>j<k. if has_nan ops (recomputed ops points ?a k ! j) then cs' ! j \<in> set points
                    else cs' ! j = recomputed ops points ?a k ! j))"
      then obtain cs' s' where
        st: "kmeans_step ops rs points k a cs s0 =
             Inr (?a, cs', s', a \<noteq> ?a \<or> (\<exists>c\<in>set (recomputed ops points ?a k). has_nan ops c))"
        and lc': "length cs' = k"
        and rs: "\<forall>j<k. if has_nan ops (recomputed ops points ?a k ! j) then cs' ! j \<in> set points
                       else cs' ! j = recomputed ops points ?a k ! j"
        by blast
      have lt: "\<forall>x\<in>set ?a. x < k" by (rule best_of_all_lt[OF sp])
      have "recompute_centroids ops points ?a k = Inr (recomputed ops points ?a k)"
        by (rule recompute_centroids_result[OF lt])
      with st lc' rs show ?thesis by (simp add: has_nan_def length_recomputed)
    qed
  qed
  show ?thesis
  proof (intro conjI allI impI)
    show "kmeans ops rs points k max_iter s = Inl OverflowError \<or>
          (\<exists>a cs s'. kmeans ops rs points k max_iter s = Inr (a, cs, s') \<and>
            (\<forall>c\<in>set cs. \<not> f_isnan ops (fst c) \<and> \<not> f_isnan ops (snd c)))" by (rule one)
  qed (rule two)
qed

text \<open>
  The amended statement in binary64 arithmetic, on two points with two clusters and 30
  iterations allowed: the run returns centroids without a not-a-number coordinate.
\<close>

theorem kmeans_centroids_defined_witness:
  "\<exists>a cs s'. kmeans py64 counter_src [(Num 0, Num 0), (Num 3, Num 4)] 2 30 0 = Inr (a, cs, s') \<and>
      (\<forall>c\<in>set cs. \<not> f_isnan py64 (fst c) \<and> \<not> f_isnan py64 (snd c))"
proof -
  from run_two_points obtain tr where
    r: "kmeans_run py64 counter_src [(Num 0, Num 0), (Num 3, Num 4)] 2 30 0 =
          Inr ([0, 1], [(Num 0, Num 0), (Num 3, Num 4)], 0, tr)" by blast
  have k: "kmeans py64 counter_src [(Num 0, Num 0), (Num 3, Num 4)] 2 30 0 =
          Inr ([0, 1], [(Num 0, Num 0), (Num 3, Num 4)], 0)"
    by (simp add: kmeans_def r)
  have h1: "[(Num 0, Num 0), (Num 3, Num (4::real))] \<noteq> []" by simp
  have h2: "\<forall>p\<in>set [(Num 0, Num 0), (Num 3, Num 4)].
              \<not> f_isnan py64 (fst p) \<and> \<not> f_isnan py64 (snd p)" by simp
  have h3: "1 \<le> (2::nat)" by simp
  have h4: "2 \<le> length [(Num 0, Num 0), (Num 3, Num (4::real))]" by simp
  from conjunct1[OF kmeans_centroids_defined[OF h1 h2 h3 h4, of counter_src 30 0]] k
  show ?thesis by simp
qed

text \<open>
  C8 as stated fails on two points with finite coordinates that are \<open>2 ** 512\<close> apart,
  with one cluster: the initial centroid is the first point, and the distance of the second
  point to it raises \<open>OverflowError\<close>, so no centroid list is returned to the caller.
\<close>

theorem kmeans_centroids_defined_counterexample:
  "kmeans py64 counter_src [(Num (2 ^ 512), Num (2 ^ 512)), (Num 0, Num 0)] 1 30 0 =
     Inl OverflowError"
proof -
  define h :: real where "h = 2 ^ 512"
  note bf = big_facts[OF h_def]
  have e0: "euclidean2 py64 (Num h, Num h) (Num h, Num h) = Inr (Num 0)" by simp
  have e1: "euclidean2 py64 (Num 0, Num 0) (Num h, Num h) = Inl OverflowError"
    by (simp add: euclidean2_num bf del: fsq.simps)
  have "kmeans_run py64 counter_src [(Num h, Num h), (Num 0, Num 0)] (Suc 0) 30 0 =
          Inl OverflowError"
    by (rule kmeans_run_overflow_one[OF e0 e1]) simp
  then have "kmeans py64 counter_src [(Num h, Num h), (Num 0, Num 0)] 1 30 0 = Inl OverflowError"
    by (simp add: kmeans_def)
  then show ?thesis unfolding h_def .
qed

section \<open>One cluster, and one cluster for each point\<close>

text \<open>
  C7, as amended. Take a non-empty group of points on which \<open>choose_k\<close> returns 1,
  such that no squared distance between two points of the group overflows and the float mean
  of the group (\<open>mean_point\<close>: the coordinates added to \<open>0.0\<close> in the order of
  the list, each sum divided by the number of points) has no not-a-number coordinate. When
  at least one iteration is allowed, \<open>kmeans\<close> assigns every point to cluster 0 and
  returns one centroid, that float mean. For a group of a single point whose float mean is
  the point itself, \<open>kmeans\<close> returns the point as the centroid whatever the bound on
  the iterations, and draws nothing.
\<close>

theorem kmeans_single_cluster_mean:
  assumes "points \<noteq> []" and "choose_k (int (length points)) target_capacity = Inr 1"
    and "\<forall>p\<in>set points. \<forall>q\<in>set points. \<exists>d. euclidean2 ops p q = Inr d"
    and "\<not> f_isnan ops (fst (mean_point ops points))"
    and "\<not> f_isnan ops (snd (mean_point ops points))"
  shows "(1 \<le> max_iter \<longrightarrow>
            (\<exists>s'. kmeans ops rs points (nat 1) max_iter s =
                  Inr (replicate (length points) 0, [mean_point ops points], s'))) \<and>
         (length points = 1 \<longrightarrow> mean_point ops points = hd points \<longrightarrow>
            kmeans ops rs points (nat 1) max_iter s = Inr ([0], points, s))"
proof (intro conjI impI)
  have nn: "\<not> has_nan ops (mean_point ops points)" using assms(4,5) by (simp add: has_nan_def)
  {
    assume mi: "1 \<le> max_iter"
    from kmeans_k1[OF assms(1) mi assms(3) nn, of rs s] obtain s0 where
      "kmeans ops rs points (Suc 0) max_iter s =
         Inr (replicate (length points) 0, [mean_point ops points], s0)" by blast
    then show "\<exists>s'. kmeans ops rs points (nat 1) max_iter s =
                  Inr (replicate (length points) 0, [mean_point ops points], s')"
      by simp
  }
  {
    assume l: "length points = 1" and mp: "mean_point ops points = hd points"
    from l obtain p where p: "points = [p]" by (cases points) auto
    have ok: "\<exists>d. euclidean2 ops p p = Inr d" using assms(3) p by simp
    have nn': "\<not> has_nan ops (mean_point ops [p])" using nn p by simp
    have mp': "mean_point ops [p] = p" using mp p by simp
    from kmeans_single_point[OF ok nn' mp', of rs max_iter s]
    show "kmeans ops rs points (nat 1) max_iter s = Inr ([0], points, s)"
      by (simp add: p)
  }
qed

text \<open>
  The amended statement in binary64 arithmetic, on three points with a target capacity of
  12 and 30 iterations allowed: \<open>choose_k\<close> returns 1, the float mean is
  \<open>(2, 1)\<close>, and it is the centroid returned.
\<close>

theorem kmeans_single_cluster_mean_witness:
  "choose_k (int (length [(Num 0, Num 0), (Num 2, Num 0), (Num 4, Num (3::real))])) 12 = Inr 1 \<and>
   mean_point py64 [(Num 0, Num 0), (Num 2, Num 0), (Num 4, Num 3)] = (Num 2, Num 1) \<and>
   (\<exists>s'. kmeans py64 counter_src [(Num 0, Num 0), (Num 2, Num 0), (Num 4, Num 3)] (nat 1) 30 0 =
          Inr ([0, 0, 0], [(Num 2, Num 1)], s'))"
proof -
  have ne: "[(Num 0, Num 0), (Num 2, Num 0), (Num 4, Num (3::real))] \<noteq> []" by simp
  have k: "choose_k (int (length [(Num 0, Num 0), (Num 2, Num 0), (Num 4, Num (3::real))])) 12 =
             Inr 1"
    by (simp add: choose_k_3_12)
  have ok: "\<forall>p\<in>set [(Num 0, Num 0), (Num 2, Num 0), (Num 4, Num 3)].
              \<forall>q\<in>set [(Num 0, Num 0), (Num 2, Num 0), (Num 4, Num 3)].
                \<exists>d. euclidean2 py64 p q = Inr d"
    by (simp add: euclidean2_num Let_def)
  have m: "mean_point py64 [(Num 0, Num 0), (Num 2, Num 0), (Num 4, Num 3)] = (Num 2, Num 1)"
    by (simp add: mean_point_def centroid_of_def point_add_def)
  have n1: "\<not> f_isnan py64 (fst (mean_point py64 [(Num 0, Num 0), (Num 2, Num 0), (Num 4, Num 3)]))"
    by (simp add: m)
  have n2: "\<not> f_isnan py64 (snd (mean_point py64 [(Num 0, Num 0), (Num 2, Num 0), (Num 4, Num 3)]))"
    by (simp add: m)
  have mi: "1 \<le> (30::int)" by simp
  from conjunct1[OF kmeans_single_cluster_mean[OF ne k ok n1 n2, of 30 counter_src 0]] mi k m
  show ?thesis by (simp add: eval_nat_numeral)
qed

text \<open>
  C7 as stated fails when no iteration is allowed: two points, a target capacity of 12 and
  \<open>max_iter = 0\<close> give \<open>k = 1\<close>, and the centroid returned is the initial
  one, a point sampled from the group, \<open>(0, 0)\<close>, while the mean of the two points is
  \<open>(1, 0)\<close>.
\<close>

theorem kmeans_single_cluster_mean_counterexample:
  "choose_k 2 12 = Inr 1 \<and>
   kmeans py64 counter_src [(Num 0, Num 0), (Num 2, Num 0)] (nat 1) 0 0 =
     Inr ([0, 0], [(Num 0, Num 0)], 1) \<and>
   mean_point py64 [(Num 0, Num 0), (Num 2, Num 0)] = (Num 1, Num 0)"
  by (simp add: choose_k_2_12 kmeans_def kmeans_run_def init_centroids_def random_sample_def
      mean_point_def centroid_of_def point_add_def eval_nat_numeral)

text \<open>
  C6, as amended. Take pairwise distinct points without not-a-number coordinates such that
  the squared distances the program computes make every point strictly nearer to itself than
  to any other point (none of them overflows, none underflows to the distance of the point to
  itself), and such that \<open>(0.0 + x) / 1\<close> is \<open>x\<close> for every coordinate
  \<open>x\<close>. With as many clusters as points and at least one iteration allowed (the
  default allows 30), \<open>init_centroids\<close> returns the points themselves in order and
  draws nothing, \<open>kmeans\<close> returns the assignment \<open>0, 1, \<dots>, n - 1\<close> and the
  points as the final centroids, and every cluster has size 1.
\<close>

theorem kmeans_one_point_per_cluster:
  assumes "lt_order ops" and "distinct points"
    and "\<forall>p\<in>set points. \<exists>d0. euclidean2 ops p p = Inr d0 \<and>
           (\<forall>q\<in>set points. q \<noteq> p \<longrightarrow> (\<exists>d. euclidean2 ops p q = Inr d \<and> f_lt ops d0 d))"
    and "\<forall>p\<in>set points. \<not> f_isnan ops (fst p) \<and> \<not> f_isnan ops (snd p)"
    and "\<forall>p\<in>set points. f_div_count ops (f_add ops (f_zero ops) (fst p)) 1 = fst p \<and>
                          f_div_count ops (f_add ops (f_zero ops) (snd p)) 1 = snd p"
    and "1 \<le> max_iter"
  shows "init_centroids rs points (length points) s = Inr (points, s) \<and>
         kmeans ops rs points (length points) max_iter s =
           Inr ([0..<length points], points, s) \<and>
         cluster_sizes (length points) [0..<length points] = Inr (replicate (length points) 1)"
proof -
  have ic: "init_centroids rs points (length points) s = Inr (points, s)"
    by (simp add: init_centroids_def)
  from kmeans_run_identity[OF assms, of rs s] obtain tr where
    "kmeans_run ops rs points (length points) max_iter s =
       Inr ([0..<length points], points, s, tr)" by blast
  then have "kmeans ops rs points (length points) max_iter s =
           Inr ([0..<length points], points, s)"
    by (simp add: kmeans_def)
  with ic cluster_sizes_upt[of "length points"] show ?thesis by simp
qed

text \<open>
  The amended statement in binary64 arithmetic, on three points with three clusters and 30
  iterations allowed.
\<close>

theorem kmeans_one_point_per_cluster_witness:
  "init_centroids counter_src [(Num 0, Num 0), (Num 3, Num 4), (Num 6, Num 0)] 3 0 =
     Inr ([(Num 0, Num 0), (Num 3, Num 4), (Num 6, Num 0)], 0) \<and>
   kmeans py64 counter_src [(Num 0, Num 0), (Num 3, Num 4), (Num 6, Num 0)] 3 30 0 =
     Inr ([0, 1, 2], [(Num 0, Num 0), (Num 3, Num 4), (Num 6, Num 0)], 0) \<and>
   cluster_sizes 3 [0, 1, 2] = Inr [1, 1, 1]"
proof -
  have d: "distinct [(Num 0, Num 0), (Num 3, Num 4), (Num 6, Num (0::real))]" by simp
  have near: "\<forall>p\<in>set [(Num 0, Num 0), (Num 3, Num 4), (Num 6, Num 0)].
                \<exists>d0. euclidean2 py64 p p = Inr d0 \<and>
                 (\<forall>q\<in>set [(Num 0, Num 0), (Num 3, Num 4), (Num 6, Num 0)]. q \<noteq> p \<longrightarrow>
                    (\<exists>d. euclidean2 py64 p q = Inr d \<and> f_lt py64 d0 d))"
    by (simp add: euclidean2_num Let_def)
  have fin: "\<forall>p\<in>set [(Num 0, Num 0), (Num 3, Num 4), (Num 6, Num 0)].
               \<not> f_isnan py64 (fst p) \<and> \<not> f_isnan py64 (snd p)" by simp
  have one: "\<forall>p\<in>set [(Num 0, Num 0), (Num 3, Num 4), (Num 6, Num 0)].
               f_div_count py64 (f_add py64 (f_zero py64) (fst p)) 1 = fst p \<and>
               f_div_count py64 (f_add py64 (f_zero py64) (snd p)) 1 = snd p" by simp
  have mi: "1 \<le> (30::int)" by simp
  from kmeans_one_point_per_cluster[OF lt_order_py64 d near fin one mi, of counter_src 0]
  show ?thesis by (simp add: eval_nat_numeral)
qed

text \<open>
  C6 as stated fails on two identical points with two clusters and the default bound of 30
  iterations: the centroids start as the two points, both points go to cluster 0 in every
  pass (a tie goes to the lower index), cluster 1 is re-seeded in every pass, and the run
  ends with the sizes 2 and 0.
\<close>

theorem kmeans_one_point_per_cluster_counterexample:
  "init_centroids counter_src [(Num 1, Num 1), (Num 1, Num 1)] 2 0 =
     Inr ([(Num 1, Num 1), (Num 1, Num 1)], 0) \<and>
   kmeans py64 counter_src [(Num 1, Num 1), (Num 1, Num 1)] 2 30 0 =
     Inr ([0, 0], [(Num 1, Num 1), (Num 1, Num 1)], 30) \<and>
   cluster_sizes 2 [0, 0] = Inr [2, 0]"
proof -
  have ic: "init_centroids counter_src [(Num 1, Num 1), (Num 1, Num 1)] 2 0 =
     Inr ([(Num 1, Num 1), (Num 1, Num 1)], 0)"
    by (simp add: init_centroids_def)
  have r: "replicate (length [(Num 1, Num 1), (Num 1, Num (1::real))]) (0::nat) = [0, 0]"
    by (simp add: eval_nat_numeral)
  have "kmeans py64 counter_src [(Num 1, Num 1), (Num 1, Num 1)] 2 30 0 =
     Inr ([0, 0], [(Num 1, Num 1), (Num 1, Num 1)], 30)"
    unfolding kmeans_def kmeans_run_def ic r by (simp add: twin_loop)
  moreover have "cluster_sizes 2 [0, 0] = Inr [2, 0]"
    by (simp add: cluster_sizes_def py_get_def eval_nat_numeral)
  ultimately show ?thesis using ic by simp
qed

section \<open>An empty cluster in the summary\<close>

text \<open>
  C10. Two identical points with a target capacity of 1 give \<open>k = 2\<close>; with one
  iteration allowed \<open>kmeans\<close>, in binary64 arithmetic and for every random source,
  assigns both points to cluster 0; the centroid of cluster 0 is the float mean of the two
  points and the centroid of cluster 1 is the re-seeded point; the sizes counted are 2 and
  0, and the summary row of the second cluster reports the size 0 beside the formatted
  coordinates of the point. For the point \<open>(1, 1)\<close> the float mean is the point.
\<close>

theorem empty_cluster_in_summary:
  "choose_k 2 1 = Inr 2 \<and>
   (\<exists>s'. kmeans py64 rs [(Num x, Num y), (Num x, Num y)] (nat 2) 1 s =
           Inr ([0, 0],
                [mean_point py64 [(Num x, Num y), (Num x, Num y)], (Num x, Num y)], s')) \<and>
   cluster_sizes 2 [0, 0] = Inr [2, 0] \<and>
   summary_loop fmt6 (d, st, en, u) [2, 0] 0
       [mean_point py64 [(Num x, Num y), (Num x, Num y)], (Num x, Num y)] =
     Inr [\<lparr>sum_day = d, sum_time_window_start = st, sum_time_window_end = en,
           sum_university_id = u,
           sum_cluster_id = d @ ''_'' @ st @ ''-'' @ en @ ''_'' @ u @ ''_C01'',
           cluster_size = ''2'',
           centroid_lat = fmt6 (fst (mean_point py64 [(Num x, Num y), (Num x, Num y)])),
           centroid_lng = fmt6 (snd (mean_point py64 [(Num x, Num y), (Num x, Num y)]))\<rparr>,
          \<lparr>sum_day = d, sum_time_window_start = st, sum_time_window_end = en,
           sum_university_id = u,
           sum_cluster_id = d @ ''_'' @ st @ ''-'' @ en @ ''_'' @ u @ ''_C02'',
           cluster_size = ''0'', centroid_lat = fmt6 (Num x), centroid_lng = fmt6 (Num y)\<rparr>] \<and>
   mean_point py64 [(Num 1, Num 1), (Num 1, Num 1)] = (Num 1, Num 1)"
proof -
  have e: "euclidean2 py64 (Num x, Num y) (Num x, Num y) = Inr (Num 0)" by simp
  from twin_step[OF e, of rs s] obtain s' where
    st: "kmeans_step py64 rs [(Num x, Num y), (Num x, Num y)] 2 [0, 0]
           [(Num x, Num y), (Num x, Num y)] s =
         Inr ([0, 0], [mean_point py64 [(Num x, Num y), (Num x, Num y)], (Num x, Num y)], s', True)"
    by blast
  have ic: "init_centroids rs [(Num x, Num y), (Num x, Num y)] 2 s =
              Inr ([(Num x, Num y), (Num x, Num y)], s)"
    by (simp add: init_centroids_def)
  have r: "replicate (length [(Num x, Num y), (Num x, Num y)]) (0::nat) = [0, 0]"
    by (simp add: eval_nat_numeral)
  have n1: "nat 1 = Suc 0" by simp
  have "kmeans py64 rs [(Num x, Num y), (Num x, Num y)] 2 1 s =
           Inr ([0, 0], [mean_point py64 [(Num x, Num y), (Num x, Num y)], (Num x, Num y)], s')"
    unfolding kmeans_def kmeans_run_def ic r n1 by (simp add: st)
  then have run: "\<exists>s'. kmeans py64 rs [(Num x, Num y), (Num x, Num y)] (nat 2) 1 s =
           Inr ([0, 0], [mean_point py64 [(Num x, Num y), (Num x, Num y)], (Num x, Num y)], s')"
    by simp
  have sizes: "cluster_sizes 2 [0, 0] = Inr [2, 0]"
    by (simp add: cluster_sizes_def py_get_def eval_nat_numeral)
  have rows: "summary_loop fmt6 (d, st, en, u) [2, 0] 0
       [mean_point py64 [(Num x, Num y), (Num x, Num y)], (Num x, Num y)] =
     Inr [\<lparr>sum_day = d, sum_time_window_start = st, sum_time_window_end = en,
           sum_university_id = u,
           sum_cluster_id = d @ ''_'' @ st @ ''-'' @ en @ ''_'' @ u @ ''_C01'',
           cluster_size = ''2'',
           centroid_lat = fmt6 (fst (mean_point py64 [(Num x, Num y), (Num x, Num y)])),
           centroid_lng = fmt6 (snd (mean_point py64 [(Num x, Num y), (Num x, Num y)]))\<rparr>,
          \<lparr>sum_day = d, sum_time_window_start = st, sum_time_window_end = en,
           sum_university_id = u,
           sum_cluster_id = d @ ''_'' @ st @ ''-'' @ en @ ''_'' @ u @ ''_C02'',
           cluster_size = ''0'', centroid_lat = fmt6 (Num x), centroid_lng = fmt6 (Num y)\<rparr>]"
    by (simp add: py_get_def cluster_id_of_def fmt_02d_def str_nat.simps digit_char_def)
  from choose_k_2_1 run sizes rows twin_mean_one show ?thesis by simp
qed

section \<open>The batch\<close>

text \<open>
  C1. The rows \<open>main\<close> returns are a function of the input rows in their order,
  the seed, the target capacity and the bound on the iterations: \<open>main\<close> starts by
  seeding the random source, so whatever state the source was in before the run has no
  effect on the assignment rows and the summary rows.
\<close>

theorem main_deterministic:
  "main ops rs seed_state float_of fmt6 ambient1 seed target_capacity max_iter rows =
   main ops rs seed_state float_of fmt6 ambient2 seed target_capacity max_iter rows"
  by (simp add: main_def)

end
